theory Spec2Isabelle
  imports Main "HOL-Library.Word"
begin

section \<open>Data model of \<^verbatim>\<open>main.cpp\<close>\<close>

text \<open>
  \<^verbatim>\<open>OrderId\<close> is \<^verbatim>\<open>uint64_t\<close>; it is only ever used as a key. \<^verbatim>\<open>Price\<close> and
  \<^verbatim>\<open>Volume\<close> are \<^verbatim>\<open>int64_t\<close>. Prices are only compared. Volumes are added and
  subtracted in \<^verbatim>\<open>int64_t\<close>: the model keeps a volume as an integer and reduces the
  result of every \<^verbatim>\<open>+\<close>, \<^verbatim>\<open>-\<close>, \<^verbatim>\<open>+=\<close> and \<^verbatim>\<open>-=\<close> of the source into the range
  \<open>-2^63 \<le> v < 2^63\<close> with \<open>int64\<close> (two's-complement wrap-around, which is what the
  compiled program computes; the C++ standard leaves signed overflow undefined).
\<close>

type_synonym OrderId = "64 word"
type_synonym Price = int
type_synonym Volume = int

definition int64 :: "int \<Rightarrow> int" where
  "int64 x = (x + 2 ^ 63) mod 2 ^ 64 - 2 ^ 63"

datatype Side = Ask | Bid

record PriceLevel =
  price :: Price
  volume :: Volume

text \<open>
  The three members \<^verbatim>\<open>side\<close>, \<^verbatim>\<open>price\<close>, \<^verbatim>\<open>originalVolume\<close> of the nested
  \<^verbatim>\<open>OrderDetails\<close> structs (the field \<^verbatim>\<open>price\<close> is written \<open>oprice\<close>, the field
  \<^verbatim>\<open>side\<close> is written \<open>oside\<close>).
\<close>

record OrderDetails =
  oside :: Side
  oprice :: Price
  originalVolume :: Volume

text \<open>
  The four array-backed classes have the same three data members: two
  \<^verbatim>\<open>std::vector<PriceLevel>\<close> and one \<^verbatim>\<open>std::unordered_map<OrderId, OrderDetails>\<close>.
\<close>

record VectorBook =
  mBidLevels :: "PriceLevel list"
  mAskLevels :: "PriceLevel list"
  mOrders :: "OrderId \<rightharpoonup> OrderDetails"

definition emptyVectorBook :: VectorBook where
  "emptyVectorBook = \<lparr>mBidLevels = [], mAskLevels = [], mOrders = Map.empty\<rparr>"

datatype Operation =
  Add OrderId Side Price Volume
  | Modify OrderId Volume
  | Delete OrderId

section \<open>Searches\<close>

text \<open>
  \<^verbatim>\<open>std::lower_bound(first, last, value, comp)\<close> of the C++ standard library, as the
  usual count/step loop; iterators are positions in the list.
\<close>

function lower_bound_loop :: "'a list \<Rightarrow> 'a \<Rightarrow> ('a \<Rightarrow> 'a \<Rightarrow> bool) \<Rightarrow> nat \<Rightarrow> nat \<Rightarrow> nat" where
  "lower_bound_loop xs val cmp first count =
     (if count > 0 then
        (let step = count div 2; it = first + step in
         if cmp (xs ! it) val
         then lower_bound_loop xs val cmp (Suc it) (count - (step + 1))
         else lower_bound_loop xs val cmp first step)
      else first)"
  by pat_completeness auto
termination
  by (relation "measure (\<lambda>(xs, val, cmp, first, count). count)") auto

definition lower_bound :: "'a list \<Rightarrow> 'a \<Rightarrow> ('a \<Rightarrow> 'a \<Rightarrow> bool) \<Rightarrow> nat" where
  "lower_bound xs val cmp = lower_bound_loop xs val cmp 0 (length xs)"

text \<open>
  \<^verbatim>\<open>branchless_lower_bound\<close> (lines 338-348): \<^verbatim>\<open>comp(*mid, value)\<close> is a \<^verbatim>\<open>bool\<close>
  multiplied with \<^verbatim>\<open>length - half\<close>, that is 1 or 0 times it.
\<close>

function branchless_loop :: "'a list \<Rightarrow> 'a \<Rightarrow> ('a \<Rightarrow> 'a \<Rightarrow> bool) \<Rightarrow> nat \<Rightarrow> nat \<Rightarrow> nat" where
  "branchless_loop xs val cmp first len =
     (if len > 0 then
        (let half = len div 2; mid = first + half in
         branchless_loop xs val cmp
           (first + (if cmp (xs ! mid) val then 1 else 0) * (len - half)) half)
      else first)"
  by pat_completeness auto
termination
  by (relation "measure (\<lambda>(xs, val, cmp, first, len). len)") auto

definition branchless_lower_bound :: "'a list \<Rightarrow> 'a \<Rightarrow> ('a \<Rightarrow> 'a \<Rightarrow> bool) \<Rightarrow> nat" where
  "branchless_lower_bound xs val cmp = branchless_loop xs val cmp 0 (length xs)"

text \<open>
  \<^verbatim>\<open>std::find_if\<close>: the position of the first element that satisfies the
  predicate, the length of the list (\<^verbatim>\<open>end()\<close>) when there is none.
\<close>

fun find_if :: "'a list \<Rightarrow> ('a \<Rightarrow> bool) \<Rightarrow> nat" where
  "find_if [] pred = 0"
| "find_if (x # xs) pred = (if pred x then 0 else Suc (find_if xs pred))"

text \<open>\<^verbatim>\<open>vector::insert(it, x)\<close> and \<^verbatim>\<open>vector::erase(it)\<close> at a position.\<close>

definition insert_at :: "'a list \<Rightarrow> nat \<Rightarrow> 'a \<Rightarrow> 'a list" where
  "insert_at xs it x = take it xs @ x # drop it xs"

definition erase_at :: "'a list \<Rightarrow> nat \<Rightarrow> 'a list" where
  "erase_at xs it = take it xs @ drop (Suc it) xs"

text \<open>
  \<^verbatim>\<open>it->volume += d\<close> on the element at a position (\<^verbatim>\<open>it->volume -= d\<close> is the same
  with \<open>- d\<close>: the sum is reduced after the subtraction).
\<close>

definition add_volume_at :: "PriceLevel list \<Rightarrow> nat \<Rightarrow> Volume \<Rightarrow> PriceLevel list" where
  "add_volume_at levels it d = levels[it := (levels ! it)\<lparr>volume := int64 (volume (levels ! it) + d)\<rparr>]"

text \<open>
  \<^verbatim>\<open>auto& levels = (details.side == Side::Bid) ? mBidLevels : mAskLevels\<close>: reading
  and writing through the reference.
\<close>

definition levels_of :: "VectorBook \<Rightarrow> Side \<Rightarrow> PriceLevel list" where
  "levels_of b sd = (if sd = Bid then mBidLevels b else mAskLevels b)"

definition set_levels :: "VectorBook \<Rightarrow> Side \<Rightarrow> PriceLevel list \<Rightarrow> VectorBook" where
  "set_levels b sd levels = (if sd = Bid then b\<lparr>mBidLevels := levels\<rparr> else b\<lparr>mAskLevels := levels\<rparr>)"

text \<open>The wrapper lambda \<^verbatim>\<open>[&comp](p1, p2) { return comp(p1.price, p2.price); }\<close>.\<close>

definition by_price :: "(Price \<Rightarrow> Price \<Rightarrow> bool) \<Rightarrow> PriceLevel \<Rightarrow> PriceLevel \<Rightarrow> bool" where
  "by_price cmp p1 p2 = cmp (price p1) (price p2)"

section \<open>The binary-search books\<close>

text \<open>
  \<^verbatim>\<open>OrderBookVector\<close> (lines 140-237), \<^verbatim>\<open>OrderBookVectorEfficient\<close> (239-336) and
  \<^verbatim>\<open>OrderBookVectorBranchless\<close> (350-447) are the same text up to three choices:
  the search routine (\<^verbatim>\<open>std::lower_bound\<close> or \<^verbatim>\<open>branchless_lower_bound\<close>), the
  comparator of each side, and the end of the array that holds the best price. The
  model writes the text once, with the search and the two comparators as
  parameters, and instantiates it per class below.
\<close>

type_synonym search = "PriceLevel list \<Rightarrow> PriceLevel \<Rightarrow> (PriceLevel \<Rightarrow> PriceLevel \<Rightarrow> bool) \<Rightarrow> nat"

definition AddOrderImpl ::
  "search \<Rightarrow> PriceLevel list \<Rightarrow> Price \<Rightarrow> Volume \<Rightarrow> (Price \<Rightarrow> Price \<Rightarrow> bool) \<Rightarrow> PriceLevel list" where
  "AddOrderImpl srch levels pr vol cmp =
     (let it = srch levels \<lparr>price = pr, volume = 0\<rparr> (by_price cmp) in
      if it \<noteq> length levels \<and> price (levels ! it) = pr
      then add_volume_at levels it vol
      else insert_at levels it \<lparr>price = pr, volume = vol\<rparr>)"

definition AddOrder_bs ::
  "search \<Rightarrow> (Price \<Rightarrow> Price \<Rightarrow> bool) \<Rightarrow> (Price \<Rightarrow> Price \<Rightarrow> bool) \<Rightarrow>
   VectorBook \<Rightarrow> OrderId \<Rightarrow> Side \<Rightarrow> Price \<Rightarrow> Volume \<Rightarrow> VectorBook" where
  "AddOrder_bs srch bidComp askComp b orderId sd pr vol =
     (if mOrders b orderId \<noteq> None then b
      else if sd = Bid
      then b\<lparr>mBidLevels := AddOrderImpl srch (mBidLevels b) pr vol bidComp,
             mOrders := (mOrders b)(orderId \<mapsto> \<lparr>oside = sd, oprice = pr, originalVolume = vol\<rparr>)\<rparr>
      else b\<lparr>mAskLevels := AddOrderImpl srch (mAskLevels b) pr vol askComp,
             mOrders := (mOrders b)(orderId \<mapsto> \<lparr>oside = sd, oprice = pr, originalVolume = vol\<rparr>)\<rparr>)"

definition ModifyOrder_bs ::
  "search \<Rightarrow> (Price \<Rightarrow> Price \<Rightarrow> bool) \<Rightarrow> (Price \<Rightarrow> Price \<Rightarrow> bool) \<Rightarrow>
   VectorBook \<Rightarrow> OrderId \<Rightarrow> Volume \<Rightarrow> VectorBook" where
  "ModifyOrder_bs srch bidComp askComp b orderId newVolume =
     (case mOrders b orderId of
        None \<Rightarrow> b
      | Some details \<Rightarrow>
          (let volumeDiff = int64 (newVolume - originalVolume details);
               levels = levels_of b (oside details);
               cmp = (if oside details = Bid then bidComp else askComp);
               it = srch levels \<lparr>price = oprice details, volume = 0\<rparr> (by_price cmp) in
           if it \<noteq> length levels \<and> price (levels ! it) = oprice details
           then (let levels' = add_volume_at levels it volumeDiff in
                 if volume (levels' ! it) \<le> 0
                 then (set_levels b (oside details) (erase_at levels' it))
                        \<lparr>mOrders := (mOrders b)(orderId := None)\<rparr>
                 else (set_levels b (oside details) levels')
                        \<lparr>mOrders := (mOrders b)(orderId \<mapsto> details\<lparr>originalVolume := newVolume\<rparr>)\<rparr>)
           else b))"

definition DeleteOrder_bs ::
  "search \<Rightarrow> (Price \<Rightarrow> Price \<Rightarrow> bool) \<Rightarrow> (Price \<Rightarrow> Price \<Rightarrow> bool) \<Rightarrow>
   VectorBook \<Rightarrow> OrderId \<Rightarrow> VectorBook" where
  "DeleteOrder_bs srch bidComp askComp b orderId =
     (case mOrders b orderId of
        None \<Rightarrow> b
      | Some details \<Rightarrow>
          (let levels = levels_of b (oside details);
               cmp = (if oside details = Bid then bidComp else askComp);
               it = srch levels \<lparr>price = oprice details, volume = 0\<rparr> (by_price cmp) in
           (if it \<noteq> length levels \<and> price (levels ! it) = oprice details
            then (let levels' = add_volume_at levels it (- originalVolume details) in
                  if volume (levels' ! it) \<le> 0
                  then set_levels b (oside details) (erase_at levels' it)
                  else set_levels b (oside details) levels')
            else b)
             \<lparr>mOrders := (mOrders b)(orderId := None)\<rparr>))"

text \<open>\<^verbatim>\<open>GetBestPrices\<close> reading \<^verbatim>\<open>front()\<close> (OrderBookVector) or \<^verbatim>\<open>back()\<close> (the others).\<close>

definition GetBestPrices_front :: "VectorBook \<Rightarrow> Price \<times> Price" where
  "GetBestPrices_front b =
     (if mBidLevels b = [] \<or> mAskLevels b = [] then (0, 0)
      else (price (hd (mBidLevels b)), price (hd (mAskLevels b))))"

definition GetBestPrices_back :: "VectorBook \<Rightarrow> Price \<times> Price" where
  "GetBestPrices_back b =
     (if mBidLevels b = [] \<or> mAskLevels b = [] then (0, 0)
      else (price (last (mBidLevels b)), price (last (mAskLevels b))))"


subsection \<open>The three instances\<close>

text \<open>
  \<^verbatim>\<open>OrderBookVector\<close>: \<^verbatim>\<open>std::lower_bound\<close>, bids under \<^verbatim>\<open>std::greater\<close>, asks
  under \<^verbatim>\<open>std::less\<close>, best price at \<^verbatim>\<open>front()\<close>.
\<close>

definition OrderBookVector_AddOrder :: "VectorBook \<Rightarrow> OrderId \<Rightarrow> Side \<Rightarrow> Price \<Rightarrow> Volume \<Rightarrow> VectorBook" where
  "OrderBookVector_AddOrder = AddOrder_bs lower_bound (>) (<)"

definition OrderBookVector_ModifyOrder :: "VectorBook \<Rightarrow> OrderId \<Rightarrow> Volume \<Rightarrow> VectorBook" where
  "OrderBookVector_ModifyOrder = ModifyOrder_bs lower_bound (>) (<)"

definition OrderBookVector_DeleteOrder :: "VectorBook \<Rightarrow> OrderId \<Rightarrow> VectorBook" where
  "OrderBookVector_DeleteOrder = DeleteOrder_bs lower_bound (>) (<)"

definition OrderBookVector_GetBestPrices :: "VectorBook \<Rightarrow> Price \<times> Price" where
  "OrderBookVector_GetBestPrices = GetBestPrices_front"

text \<open>
  \<^verbatim>\<open>OrderBookVectorEfficient\<close>: \<^verbatim>\<open>std::lower_bound\<close>, bids under \<^verbatim>\<open>std::less\<close>,
  asks under \<^verbatim>\<open>std::greater\<close>, best price at \<^verbatim>\<open>back()\<close>.
\<close>

definition OrderBookVectorEfficient_AddOrder :: "VectorBook \<Rightarrow> OrderId \<Rightarrow> Side \<Rightarrow> Price \<Rightarrow> Volume \<Rightarrow> VectorBook" where
  "OrderBookVectorEfficient_AddOrder = AddOrder_bs lower_bound (<) (>)"

definition OrderBookVectorEfficient_ModifyOrder :: "VectorBook \<Rightarrow> OrderId \<Rightarrow> Volume \<Rightarrow> VectorBook" where
  "OrderBookVectorEfficient_ModifyOrder = ModifyOrder_bs lower_bound (<) (>)"

definition OrderBookVectorEfficient_DeleteOrder :: "VectorBook \<Rightarrow> OrderId \<Rightarrow> VectorBook" where
  "OrderBookVectorEfficient_DeleteOrder = DeleteOrder_bs lower_bound (<) (>)"

definition OrderBookVectorEfficient_GetBestPrices :: "VectorBook \<Rightarrow> Price \<times> Price" where
  "OrderBookVectorEfficient_GetBestPrices = GetBestPrices_back"

text \<open>
  \<^verbatim>\<open>OrderBookVectorBranchless\<close>: \<^verbatim>\<open>branchless_lower_bound\<close>, comparators and best
  price as in \<^verbatim>\<open>OrderBookVectorEfficient\<close>.
\<close>

definition OrderBookVectorBranchless_AddOrder :: "VectorBook \<Rightarrow> OrderId \<Rightarrow> Side \<Rightarrow> Price \<Rightarrow> Volume \<Rightarrow> VectorBook" where
  "OrderBookVectorBranchless_AddOrder = AddOrder_bs branchless_lower_bound (<) (>)"

definition OrderBookVectorBranchless_ModifyOrder :: "VectorBook \<Rightarrow> OrderId \<Rightarrow> Volume \<Rightarrow> VectorBook" where
  "OrderBookVectorBranchless_ModifyOrder = ModifyOrder_bs branchless_lower_bound (<) (>)"

definition OrderBookVectorBranchless_DeleteOrder :: "VectorBook \<Rightarrow> OrderId \<Rightarrow> VectorBook" where
  "OrderBookVectorBranchless_DeleteOrder = DeleteOrder_bs branchless_lower_bound (<) (>)"

definition OrderBookVectorBranchless_GetBestPrices :: "VectorBook \<Rightarrow> Price \<times> Price" where
  "OrderBookVectorBranchless_GetBestPrices = GetBestPrices_back"

section \<open>The linear-scan book\<close>

text \<open>
  \<^verbatim>\<open>OrderBookVectorLinear\<close> (lines 449-540). \<^verbatim>\<open>AddOrderImpl\<close> scans for the first level
  that is not before the price under the comparator; \<^verbatim>\<open>ModifyOrder\<close> and
  \<^verbatim>\<open>DeleteOrder\<close> scan for the first level with the order's price.
\<close>

definition AddOrderImpl_Linear ::
  "PriceLevel list \<Rightarrow> Price \<Rightarrow> Volume \<Rightarrow> (Price \<Rightarrow> Price \<Rightarrow> bool) \<Rightarrow> PriceLevel list" where
  "AddOrderImpl_Linear levels pr vol cmp =
     (let it = find_if levels (\<lambda>pl. \<not> cmp (price pl) pr) in
      if it \<noteq> length levels \<and> price (levels ! it) = pr
      then add_volume_at levels it vol
      else insert_at levels it \<lparr>price = pr, volume = vol\<rparr>)"

definition OrderBookVectorLinear_AddOrder :: "VectorBook \<Rightarrow> OrderId \<Rightarrow> Side \<Rightarrow> Price \<Rightarrow> Volume \<Rightarrow> VectorBook" where
  "OrderBookVectorLinear_AddOrder b orderId sd pr vol =
     (if mOrders b orderId \<noteq> None then b
      else if sd = Bid
      then b\<lparr>mBidLevels := AddOrderImpl_Linear (mBidLevels b) pr vol (<),
             mOrders := (mOrders b)(orderId \<mapsto> \<lparr>oside = sd, oprice = pr, originalVolume = vol\<rparr>)\<rparr>
      else b\<lparr>mAskLevels := AddOrderImpl_Linear (mAskLevels b) pr vol (>),
             mOrders := (mOrders b)(orderId \<mapsto> \<lparr>oside = sd, oprice = pr, originalVolume = vol\<rparr>)\<rparr>)"

definition OrderBookVectorLinear_ModifyOrder :: "VectorBook \<Rightarrow> OrderId \<Rightarrow> Volume \<Rightarrow> VectorBook" where
  "OrderBookVectorLinear_ModifyOrder b orderId newVolume =
     (case mOrders b orderId of
        None \<Rightarrow> b
      | Some details \<Rightarrow>
          (let volumeDiff = int64 (newVolume - originalVolume details);
               levels = levels_of b (oside details);
               it = find_if levels (\<lambda>pl. price pl = oprice details) in
           if it \<noteq> length levels
           then (let levels' = add_volume_at levels it volumeDiff in
                 if volume (levels' ! it) \<le> 0
                 then (set_levels b (oside details) (erase_at levels' it))
                        \<lparr>mOrders := (mOrders b)(orderId := None)\<rparr>
                 else (set_levels b (oside details) levels')
                        \<lparr>mOrders := (mOrders b)(orderId \<mapsto> details\<lparr>originalVolume := newVolume\<rparr>)\<rparr>)
           else b))"

definition OrderBookVectorLinear_DeleteOrder :: "VectorBook \<Rightarrow> OrderId \<Rightarrow> VectorBook" where
  "OrderBookVectorLinear_DeleteOrder b orderId =
     (case mOrders b orderId of
        None \<Rightarrow> b
      | Some details \<Rightarrow>
          (let levels = levels_of b (oside details);
               it = find_if levels (\<lambda>pl. price pl = oprice details) in
           (if it \<noteq> length levels
            then (let levels' = add_volume_at levels it (- originalVolume details) in
                  if volume (levels' ! it) \<le> 0
                  then set_levels b (oside details) (erase_at levels' it)
                  else set_levels b (oside details) levels')
            else b)
             \<lparr>mOrders := (mOrders b)(orderId := None)\<rparr>))"

definition OrderBookVectorLinear_GetBestPrices :: "VectorBook \<Rightarrow> Price \<times> Price" where
  "OrderBookVectorLinear_GetBestPrices = GetBestPrices_back"

section \<open>The tree book\<close>

text \<open>
  \<^verbatim>\<open>OrderBookMap\<close> (lines 43-138) keeps each side in a \<^verbatim>\<open>std::map\<close> and stores, in
  every order, an iterator to the map node of its level. A \<^verbatim>\<open>std::map\<close> is modelled by
  the sequence of its nodes in iteration order; a node has an identity (\<open>node\<close>), the
  key \<^verbatim>\<open>first\<close> and the mapped value \<^verbatim>\<open>second\<close>. An iterator is the identity of the node
  it points to; it stays valid until that node is erased, and a node inserted later
  is a new node with a new identity, also when it has the key of an erased one.
  Dereferencing or erasing through an iterator whose node is gone is undefined
  behaviour in C++: the model returns \<open>None\<close> there.
\<close>

record MapNode =
  node :: nat
  first :: Price
  second :: Volume

record OrderDetailsMap = OrderDetails +
  bidIt :: "nat option"
  askIt :: "nat option"

record OrderBookMap =
  mBidLevelsMap :: "MapNode list"
  mAskLevelsMap :: "MapNode list"
  mOrdersMap :: "OrderId \<rightharpoonup> OrderDetailsMap"
  mAllocated :: nat

definition emptyOrderBookMap :: OrderBookMap where
  "emptyOrderBookMap = \<lparr>mBidLevelsMap = [], mAskLevelsMap = [], mOrdersMap = Map.empty, mAllocated = 0\<rparr>"

text \<open>
  \<^verbatim>\<open>map::try_emplace(k, v)\<close>: the node with a key equivalent to \<open>k\<close> under the map's
  comparator when there is one, otherwise a new node at the key's place. The result
  is the map, the iterator and the flag \<^verbatim>\<open>inserted\<close>.
\<close>

definition try_emplace ::
  "MapNode list \<Rightarrow> (Price \<Rightarrow> Price \<Rightarrow> bool) \<Rightarrow> nat \<Rightarrow> Price \<Rightarrow> Volume \<Rightarrow> MapNode list \<times> nat \<times> bool" where
  "try_emplace m cmp fresh k v =
     (let pos = find_if m (\<lambda>n. \<not> cmp (first n) k) in
      if pos \<noteq> length m \<and> \<not> cmp k (first (m ! pos))
      then (m, node (m ! pos), False)
      else (insert_at m pos \<lparr>node = fresh, first = k, second = v\<rparr>, fresh, True))"

definition deref :: "MapNode list \<Rightarrow> nat option \<Rightarrow> MapNode option" where
  "deref m it = (case it of None \<Rightarrow> None | Some h \<Rightarrow> find (\<lambda>n. node n = h) m)"

text \<open>\<^verbatim>\<open>it->second += d\<close> through an iterator to a node that is in the map.\<close>

definition add_second :: "MapNode list \<Rightarrow> nat \<Rightarrow> Volume \<Rightarrow> MapNode list" where
  "add_second m h d = map (\<lambda>n. if node n = h then n\<lparr>second := int64 (second n + d)\<rparr> else n) m"

definition erase_node :: "MapNode list \<Rightarrow> nat \<Rightarrow> MapNode list" where
  "erase_node m h = filter (\<lambda>n. node n \<noteq> h) m"

definition OrderBookMap_AddOrder :: "OrderBookMap \<Rightarrow> OrderId \<Rightarrow> Side \<Rightarrow> Price \<Rightarrow> Volume \<Rightarrow> OrderBookMap" where
  "OrderBookMap_AddOrder b orderId sd pr vol =
     (if mOrdersMap b orderId \<noteq> None then b
      else if sd = Bid
      then (case try_emplace (mBidLevelsMap b) (>) (mAllocated b) pr vol of
              (m, it, inserted) \<Rightarrow>
                b\<lparr>mBidLevelsMap := (if \<not> inserted then add_second m it vol else m),
                  mOrdersMap := (mOrdersMap b)(orderId \<mapsto>
                    \<lparr>oside = sd, oprice = pr, originalVolume = vol, bidIt = Some it, askIt = None\<rparr>),
                  mAllocated := (if inserted then Suc (mAllocated b) else mAllocated b)\<rparr>)
      else (case try_emplace (mAskLevelsMap b) (<) (mAllocated b) pr vol of
              (m, it, inserted) \<Rightarrow>
                b\<lparr>mAskLevelsMap := (if \<not> inserted then add_second m it vol else m),
                  mOrdersMap := (mOrdersMap b)(orderId \<mapsto>
                    \<lparr>oside = sd, oprice = pr, originalVolume = vol, bidIt = None, askIt = Some it\<rparr>),
                  mAllocated := (if inserted then Suc (mAllocated b) else mAllocated b)\<rparr>))"

definition OrderBookMap_ModifyOrder :: "OrderBookMap \<Rightarrow> OrderId \<Rightarrow> Volume \<Rightarrow> OrderBookMap option" where
  "OrderBookMap_ModifyOrder b orderId newVolume =
     (case mOrdersMap b orderId of
        None \<Rightarrow> Some b
      | Some details \<Rightarrow>
          (let volumeDiff = int64 (newVolume - originalVolume details) in
           if oside details = Bid
           then (case deref (mBidLevelsMap b) (bidIt details) of
                   None \<Rightarrow> None
                 | Some n \<Rightarrow>
                     if int64 (second n + volumeDiff) \<le> 0
                     then Some (b\<lparr>mBidLevelsMap := erase_node (add_second (mBidLevelsMap b) (node n) volumeDiff) (node n),
                                  mOrdersMap := (mOrdersMap b)(orderId := None)\<rparr>)
                     else Some (b\<lparr>mBidLevelsMap := add_second (mBidLevelsMap b) (node n) volumeDiff,
                                  mOrdersMap := (mOrdersMap b)(orderId \<mapsto> details\<lparr>originalVolume := newVolume\<rparr>)\<rparr>))
           else (case deref (mAskLevelsMap b) (askIt details) of
                   None \<Rightarrow> None
                 | Some n \<Rightarrow>
                     if int64 (second n + volumeDiff) \<le> 0
                     then Some (b\<lparr>mAskLevelsMap := erase_node (add_second (mAskLevelsMap b) (node n) volumeDiff) (node n),
                                  mOrdersMap := (mOrdersMap b)(orderId := None)\<rparr>)
                     else Some (b\<lparr>mAskLevelsMap := add_second (mAskLevelsMap b) (node n) volumeDiff,
                                  mOrdersMap := (mOrdersMap b)(orderId \<mapsto> details\<lparr>originalVolume := newVolume\<rparr>)\<rparr>))))"

definition OrderBookMap_DeleteOrder :: "OrderBookMap \<Rightarrow> OrderId \<Rightarrow> OrderBookMap option" where
  "OrderBookMap_DeleteOrder b orderId =
     (case mOrdersMap b orderId of
        None \<Rightarrow> Some b
      | Some details \<Rightarrow>
          if oside details = Bid
          then (case deref (mBidLevelsMap b) (bidIt details) of
                  None \<Rightarrow> None
                | Some n \<Rightarrow>
                    Some (b\<lparr>mBidLevelsMap :=
                              (if int64 (second n - originalVolume details) \<le> 0
                               then erase_node (add_second (mBidLevelsMap b) (node n) (- originalVolume details)) (node n)
                               else add_second (mBidLevelsMap b) (node n) (- originalVolume details)),
                            mOrdersMap := (mOrdersMap b)(orderId := None)\<rparr>))
          else (case deref (mAskLevelsMap b) (askIt details) of
                  None \<Rightarrow> None
                | Some n \<Rightarrow>
                    Some (b\<lparr>mAskLevelsMap :=
                              (if int64 (second n - originalVolume details) \<le> 0
                               then erase_node (add_second (mAskLevelsMap b) (node n) (- originalVolume details)) (node n)
                               else add_second (mAskLevelsMap b) (node n) (- originalVolume details)),
                            mOrdersMap := (mOrdersMap b)(orderId := None)\<rparr>)))"

definition OrderBookMap_GetBestPrices :: "OrderBookMap \<Rightarrow> Price \<times> Price" where
  "OrderBookMap_GetBestPrices b =
     (if mBidLevelsMap b = [] \<or> mAskLevelsMap b = [] then (0, 0)
      else (first (hd (mBidLevelsMap b)), first (hd (mAskLevelsMap b))))"

section \<open>Operation sequences\<close>

fun step_Vector :: "VectorBook \<Rightarrow> Operation \<Rightarrow> VectorBook" where
  "step_Vector b (Add i sd pr vol) = OrderBookVector_AddOrder b i sd pr vol"
| "step_Vector b (Modify i vol) = OrderBookVector_ModifyOrder b i vol"
| "step_Vector b (Delete i) = OrderBookVector_DeleteOrder b i"

fun step_Efficient :: "VectorBook \<Rightarrow> Operation \<Rightarrow> VectorBook" where
  "step_Efficient b (Add i sd pr vol) = OrderBookVectorEfficient_AddOrder b i sd pr vol"
| "step_Efficient b (Modify i vol) = OrderBookVectorEfficient_ModifyOrder b i vol"
| "step_Efficient b (Delete i) = OrderBookVectorEfficient_DeleteOrder b i"

fun step_Branchless :: "VectorBook \<Rightarrow> Operation \<Rightarrow> VectorBook" where
  "step_Branchless b (Add i sd pr vol) = OrderBookVectorBranchless_AddOrder b i sd pr vol"
| "step_Branchless b (Modify i vol) = OrderBookVectorBranchless_ModifyOrder b i vol"
| "step_Branchless b (Delete i) = OrderBookVectorBranchless_DeleteOrder b i"

fun step_Linear :: "VectorBook \<Rightarrow> Operation \<Rightarrow> VectorBook" where
  "step_Linear b (Add i sd pr vol) = OrderBookVectorLinear_AddOrder b i sd pr vol"
| "step_Linear b (Modify i vol) = OrderBookVectorLinear_ModifyOrder b i vol"
| "step_Linear b (Delete i) = OrderBookVectorLinear_DeleteOrder b i"

fun step_Map :: "OrderBookMap \<Rightarrow> Operation \<Rightarrow> OrderBookMap option" where
  "step_Map b (Add i sd pr vol) = Some (OrderBookMap_AddOrder b i sd pr vol)"
| "step_Map b (Modify i vol) = OrderBookMap_ModifyOrder b i vol"
| "step_Map b (Delete i) = OrderBookMap_DeleteOrder b i"

text \<open>A sequence of calls on a freshly constructed book, first call first.\<close>

definition run_Vector :: "Operation list \<Rightarrow> VectorBook" where
  "run_Vector ops = foldl step_Vector emptyVectorBook ops"

definition run_Efficient :: "Operation list \<Rightarrow> VectorBook" where
  "run_Efficient ops = foldl step_Efficient emptyVectorBook ops"

definition run_Branchless :: "Operation list \<Rightarrow> VectorBook" where
  "run_Branchless ops = foldl step_Branchless emptyVectorBook ops"

definition run_Linear :: "Operation list \<Rightarrow> VectorBook" where
  "run_Linear ops = foldl step_Linear emptyVectorBook ops"

fun run_Map_from :: "OrderBookMap \<Rightarrow> Operation list \<Rightarrow> OrderBookMap option" where
  "run_Map_from b [] = Some b"
| "run_Map_from b (x # xs) = (case step_Map b x of None \<Rightarrow> None | Some b' \<Rightarrow> run_Map_from b' xs)"

definition run_Map :: "Operation list \<Rightarrow> OrderBookMap option" where
  "run_Map ops = run_Map_from emptyOrderBookMap ops"


section \<open>Vocabulary of the statements\<close>

text \<open>
  A level array is sorted under a comparator of prices when every level is before
  every later one under the comparator; with \<^verbatim>\<open>std::less\<close> or \<^verbatim>\<open>std::greater\<close> this
  is strictly ascending or strictly descending by price.
\<close>

definition sorted_levels :: "(Price \<Rightarrow> Price \<Rightarrow> bool) \<Rightarrow> PriceLevel list \<Rightarrow> bool" where
  "sorted_levels cmp levels = sorted_wrt (by_price cmp) levels"

text \<open>The two comparators the classes use.\<close>

definition is_comparator :: "(Price \<Rightarrow> Price \<Rightarrow> bool) \<Rightarrow> bool" where
  "is_comparator cmp = (cmp = (<) \<or> cmp = (>))"

text \<open>The insertion point: the number of leading levels that are before the price.\<close>

definition insertion_point :: "(Price \<Rightarrow> Price \<Rightarrow> bool) \<Rightarrow> PriceLevel list \<Rightarrow> Price \<Rightarrow> nat" where
  "insertion_point cmp levels p = length (takeWhile (\<lambda>l. cmp (price l) p) levels)"

text \<open>The aggregated volume stored for a price, if the array has a level with that price.\<close>

definition level_at :: "PriceLevel list \<Rightarrow> Price \<rightharpoonup> Volume" where
  "level_at levels = map_of (map (\<lambda>l. (price l, volume l)) levels)"

text \<open>
  The sum of \<^verbatim>\<open>originalVolume\<close> (the remaining volume of the order) over the orders
  of the registry with the given side and price.
\<close>

definition live_volume :: "(OrderId \<rightharpoonup> 'a OrderDetails_scheme) \<Rightarrow> Side \<Rightarrow> Price \<Rightarrow> Volume" where
  "live_volume orders sd p =
     (\<Sum>i | \<exists>d. orders i = Some d \<and> oside d = sd \<and> oprice d = p. originalVolume (the (orders i)))"

text \<open>Conditions on the volumes an operation carries.\<close>

fun positive_volume :: "Operation \<Rightarrow> bool" where
  "positive_volume (Add i sd pr vol) = (0 < vol)"
| "positive_volume (Modify i vol) = (0 < vol)"
| "positive_volume (Delete i) = True"

fun positive_add :: "Operation \<Rightarrow> bool" where
  "positive_add (Add i sd pr vol) = (0 < vol)"
| "positive_add (Modify i vol) = True"
| "positive_add (Delete i) = True"

text \<open>
  The range of \<^verbatim>\<open>int64_t\<close>, and a bound on the volumes of a sequence of calls under
  which no sum of the run leaves it: the volume of an order is the volume of a call,
  so \<^verbatim>\<open>volumeDiff\<close> is at most twice the largest volume of a call in absolute value, and
  a level changes by at most that much per call.
\<close>

definition in_int64 :: "int \<Rightarrow> bool" where
  "in_int64 v = (- (2 ^ 63) \<le> v \<and> v < 2 ^ 63)"

fun op_volume :: "Operation \<Rightarrow> Volume" where
  "op_volume (Add i sd pr vol) = vol"
| "op_volume (Modify i vol) = vol"
| "op_volume (Delete i) = 0"

definition max_volume :: "Operation list \<Rightarrow> int" where
  "max_volume ops = foldr (\<lambda>x m. max \<bar>op_volume x\<bar> m) ops 0"

definition small_volumes :: "Operation list \<Rightarrow> bool" where
  "small_volumes ops = (2 * max_volume ops * int (length ops) < 2 ^ 63)"

text \<open>One call on a binary-search book, for any choice of search and comparators.\<close>

fun step_bs ::
  "search \<Rightarrow> (Price \<Rightarrow> Price \<Rightarrow> bool) \<Rightarrow> (Price \<Rightarrow> Price \<Rightarrow> bool) \<Rightarrow> VectorBook \<Rightarrow> Operation \<Rightarrow> VectorBook" where
  "step_bs srch bidComp askComp b (Add i sd pr vol) = AddOrder_bs srch bidComp askComp b i sd pr vol"
| "step_bs srch bidComp askComp b (Modify i vol) = ModifyOrder_bs srch bidComp askComp b i vol"
| "step_bs srch bidComp askComp b (Delete i) = DeleteOrder_bs srch bidComp askComp b i"

text \<open>
  The position both binary searches and the linear scan of \<^verbatim>\<open>AddOrderImpl\<close> are
  meant to find, as a search routine of its own.
\<close>

definition partition_point :: search where
  "partition_point levels val R = length (takeWhile (\<lambda>l. R l val) levels)"

definition sorted_book :: "(Price \<Rightarrow> Price \<Rightarrow> bool) \<Rightarrow> (Price \<Rightarrow> Price \<Rightarrow> bool) \<Rightarrow> VectorBook \<Rightarrow> bool" where
  "sorted_book bidComp askComp b = (sorted_levels bidComp (mBidLevels b) \<and> sorted_levels askComp (mAskLevels b))"

subsection \<open>The common abstraction of the five classes\<close>

text \<open>
  What every class stores, without the order of the levels and without iterators:
  per side a partial map from prices to aggregated volumes, and the registry. The
  three operations on it follow the text the classes share: a level is created or
  increased by \<^verbatim>\<open>AddOrder\<close>; \<^verbatim>\<open>ModifyOrder\<close> and \<^verbatim>\<open>DeleteOrder\<close> act on the level with
  the order's price on the order's side if there is one. The operations \<open>w_add\<close>,
  \<open>w_modify\<close> and \<open>w_delete\<close> compute as the source does, in \<^verbatim>\<open>int64_t\<close>; the operations
  \<open>a_add\<close>, \<open>a_modify\<close> and \<open>a_delete\<close> are the same in unbounded integers, and agree
  with them as long as no sum leaves the range.
\<close>

record AbstractBook =
  a_levels :: "Side \<Rightarrow> Price \<rightharpoonup> Volume"
  a_orders :: "OrderId \<rightharpoonup> OrderDetails"

definition a_empty :: AbstractBook where
  "a_empty = \<lparr>a_levels = (\<lambda>sd. Map.empty), a_orders = Map.empty\<rparr>"

definition w_add :: "AbstractBook \<Rightarrow> OrderId \<Rightarrow> Side \<Rightarrow> Price \<Rightarrow> Volume \<Rightarrow> AbstractBook" where
  "w_add A i sd pr vol =
     (if a_orders A i \<noteq> None then A
      else \<lparr>a_levels = (a_levels A)(sd := (a_levels A sd)(pr \<mapsto>
                (case a_levels A sd pr of None \<Rightarrow> vol | Some x \<Rightarrow> int64 (x + vol)))),
            a_orders = (a_orders A)(i \<mapsto> \<lparr>oside = sd, oprice = pr, originalVolume = vol\<rparr>)\<rparr>)"

definition w_modify :: "AbstractBook \<Rightarrow> OrderId \<Rightarrow> Volume \<Rightarrow> AbstractBook" where
  "w_modify A i newVolume =
     (case a_orders A i of
        None \<Rightarrow> A
      | Some d \<Rightarrow>
          (case a_levels A (oside d) (oprice d) of
             None \<Rightarrow> A
           | Some x \<Rightarrow>
               if int64 (x + int64 (newVolume - originalVolume d)) \<le> 0
               then \<lparr>a_levels = (a_levels A)(oside d := (a_levels A (oside d))(oprice d := None)),
                     a_orders = (a_orders A)(i := None)\<rparr>
               else \<lparr>a_levels = (a_levels A)(oside d := (a_levels A (oside d))(oprice d \<mapsto>
                                    int64 (x + int64 (newVolume - originalVolume d)))),
                     a_orders = (a_orders A)(i \<mapsto> d\<lparr>originalVolume := newVolume\<rparr>)\<rparr>))"

definition w_delete :: "AbstractBook \<Rightarrow> OrderId \<Rightarrow> AbstractBook" where
  "w_delete A i =
     (case a_orders A i of
        None \<Rightarrow> A
      | Some d \<Rightarrow>
          (case a_levels A (oside d) (oprice d) of
             None \<Rightarrow> A\<lparr>a_orders := (a_orders A)(i := None)\<rparr>
           | Some x \<Rightarrow>
               if int64 (x - originalVolume d) \<le> 0
               then \<lparr>a_levels = (a_levels A)(oside d := (a_levels A (oside d))(oprice d := None)),
                     a_orders = (a_orders A)(i := None)\<rparr>
               else \<lparr>a_levels = (a_levels A)(oside d := (a_levels A (oside d))(oprice d \<mapsto>
                                    int64 (x - originalVolume d))),
                     a_orders = (a_orders A)(i := None)\<rparr>))"

fun w_step :: "AbstractBook \<Rightarrow> Operation \<Rightarrow> AbstractBook" where
  "w_step A (Add i sd pr vol) = w_add A i sd pr vol"
| "w_step A (Modify i vol) = w_modify A i vol"
| "w_step A (Delete i) = w_delete A i"

definition w_run :: "Operation list \<Rightarrow> AbstractBook" where
  "w_run ops = foldl w_step a_empty ops"

definition a_add :: "AbstractBook \<Rightarrow> OrderId \<Rightarrow> Side \<Rightarrow> Price \<Rightarrow> Volume \<Rightarrow> AbstractBook" where
  "a_add A i sd pr vol =
     (if a_orders A i \<noteq> None then A
      else \<lparr>a_levels = (a_levels A)(sd := (a_levels A sd)(pr \<mapsto>
                (case a_levels A sd pr of None \<Rightarrow> vol | Some x \<Rightarrow> x + vol))),
            a_orders = (a_orders A)(i \<mapsto> \<lparr>oside = sd, oprice = pr, originalVolume = vol\<rparr>)\<rparr>)"

definition a_modify :: "AbstractBook \<Rightarrow> OrderId \<Rightarrow> Volume \<Rightarrow> AbstractBook" where
  "a_modify A i newVolume =
     (case a_orders A i of
        None \<Rightarrow> A
      | Some d \<Rightarrow>
          (case a_levels A (oside d) (oprice d) of
             None \<Rightarrow> A
           | Some x \<Rightarrow>
               if x + (newVolume - originalVolume d) \<le> 0
               then \<lparr>a_levels = (a_levels A)(oside d := (a_levels A (oside d))(oprice d := None)),
                     a_orders = (a_orders A)(i := None)\<rparr>
               else \<lparr>a_levels = (a_levels A)(oside d := (a_levels A (oside d))(oprice d \<mapsto>
                                    x + (newVolume - originalVolume d))),
                     a_orders = (a_orders A)(i \<mapsto> d\<lparr>originalVolume := newVolume\<rparr>)\<rparr>))"

definition a_delete :: "AbstractBook \<Rightarrow> OrderId \<Rightarrow> AbstractBook" where
  "a_delete A i =
     (case a_orders A i of
        None \<Rightarrow> A
      | Some d \<Rightarrow>
          (case a_levels A (oside d) (oprice d) of
             None \<Rightarrow> A\<lparr>a_orders := (a_orders A)(i := None)\<rparr>
           | Some x \<Rightarrow>
               if x - originalVolume d \<le> 0
               then \<lparr>a_levels = (a_levels A)(oside d := (a_levels A (oside d))(oprice d := None)),
                     a_orders = (a_orders A)(i := None)\<rparr>
               else \<lparr>a_levels = (a_levels A)(oside d := (a_levels A (oside d))(oprice d \<mapsto>
                                    x - originalVolume d)),
                     a_orders = (a_orders A)(i := None)\<rparr>))"

fun a_step :: "AbstractBook \<Rightarrow> Operation \<Rightarrow> AbstractBook" where
  "a_step A (Add i sd pr vol) = a_add A i sd pr vol"
| "a_step A (Modify i vol) = a_modify A i vol"
| "a_step A (Delete i) = a_delete A i"

definition a_run :: "Operation list \<Rightarrow> AbstractBook" where
  "a_run ops = foldl a_step a_empty ops"

text \<open>The abstraction of an array-backed book.\<close>

definition view :: "VectorBook \<Rightarrow> AbstractBook" where
  "view b = \<lparr>a_levels = (\<lambda>sd. level_at (levels_of b sd)), a_orders = mOrders b\<rparr>"

text \<open>Invariants of the abstraction.\<close>

definition a_pos :: "AbstractBook \<Rightarrow> bool" where
  "a_pos A = (\<forall>sd p v. a_levels A sd p = Some v \<longrightarrow> 0 < v)"

definition a_ordpos :: "AbstractBook \<Rightarrow> bool" where
  "a_ordpos A = (\<forall>i d. a_orders A i = Some d \<longrightarrow> 0 < originalVolume d)"

definition a_sum :: "AbstractBook \<Rightarrow> bool" where
  "a_sum A = (\<forall>sd p v. a_levels A sd p = Some v \<longrightarrow> v = live_volume (a_orders A) sd p)"

definition a_has :: "AbstractBook \<Rightarrow> bool" where
  "a_has A = (\<forall>i d. a_orders A i = Some d \<longrightarrow> a_levels A (oside d) (oprice d) \<noteq> None)"

text \<open>
  After \<open>k\<close> calls with volumes of absolute value at most \<open>M\<close>, every order has a volume
  of absolute value at most \<open>M\<close> and every level one of at most \<open>2 * M * k\<close>.
\<close>

definition a_bounded :: "int \<Rightarrow> nat \<Rightarrow> AbstractBook \<Rightarrow> bool" where
  "a_bounded M k A =
     ((\<forall>sd p v. a_levels A sd p = Some v \<longrightarrow> \<bar>v\<bar> \<le> 2 * M * int k)
    \<and> (\<forall>i d. a_orders A i = Some d \<longrightarrow> \<bar>originalVolume d\<bar> \<le> M))"

subsection \<open>The abstraction of the tree book\<close>

definition node_level :: "MapNode \<Rightarrow> PriceLevel" where
  "node_level n = \<lparr>price = first n, volume = second n\<rparr>"

definition strip :: "OrderDetailsMap \<Rightarrow> OrderDetails" where
  "strip d = \<lparr>oside = oside d, oprice = oprice d, originalVolume = originalVolume d\<rparr>"

definition nodes_of :: "OrderBookMap \<Rightarrow> Side \<Rightarrow> MapNode list" where
  "nodes_of m sd = (if sd = Bid then mBidLevelsMap m else mAskLevelsMap m)"

definition set_nodes :: "OrderBookMap \<Rightarrow> Side \<Rightarrow> MapNode list \<Rightarrow> OrderBookMap" where
  "set_nodes m sd L = (if sd = Bid then m\<lparr>mBidLevelsMap := L\<rparr> else m\<lparr>mAskLevelsMap := L\<rparr>)"

text \<open>The comparator of each side's \<^verbatim>\<open>std::map\<close>, and the iterator an order uses.\<close>

definition side_cmp :: "Side \<Rightarrow> Price \<Rightarrow> Price \<Rightarrow> bool" where
  "side_cmp sd = (if sd = Bid then (>) else (<))"

definition it_of :: "OrderDetailsMap \<Rightarrow> nat option" where
  "it_of d = (if oside d = Bid then bidIt d else askIt d)"

definition view_Map :: "OrderBookMap \<Rightarrow> AbstractBook" where
  "view_Map m = \<lparr>a_levels = (\<lambda>sd. level_at (map node_level (nodes_of m sd))),
                 a_orders = (\<lambda>i. map_option strip (mOrdersMap m i))\<rparr>"

text \<open>The identities of the nodes of a map, each with its key.\<close>

definition keys_of :: "MapNode list \<Rightarrow> (nat \<times> Price) set" where
  "keys_of L = (\<lambda>n. (node n, first n)) ` set L"

text \<open>
  What holds of the tree book after every call: each map is sorted under its
  comparator, node identities are distinct and were allocated, and the iterator of
  an order, if its node is still in the map, points to the node with the order's
  price.
\<close>

definition map_inv :: "OrderBookMap \<Rightarrow> bool" where
  "map_inv m =
     ((\<forall>sd. sorted_levels (side_cmp sd) (map node_level (nodes_of m sd))
          \<and> distinct (map node (nodes_of m sd))
          \<and> (\<forall>n\<in>set (nodes_of m sd). node n < mAllocated m))
    \<and> (\<forall>i d. mOrdersMap m i = Some d \<longrightarrow>
          (\<exists>h. it_of d = Some h \<and> h < mAllocated m
             \<and> (\<forall>n\<in>set (nodes_of m (oside d)). node n = h \<longrightarrow> first n = oprice d))))"

text \<open>Every order's iterator points to a node that is in the map of the order's side.\<close>

definition map_valid :: "OrderBookMap \<Rightarrow> bool" where
  "map_valid m =
     (\<forall>i d. mOrdersMap m i = Some d \<longrightarrow>
        (\<exists>h. it_of d = Some h \<and> h \<in> node ` set (nodes_of m (oside d))))"

text \<open>The registry entry \<^verbatim>\<open>AddOrder\<close> of the tree book creates.\<close>

definition new_details :: "Side \<Rightarrow> Price \<Rightarrow> Volume \<Rightarrow> nat \<Rightarrow> OrderDetailsMap" where
  "new_details sd pr vol it =
     \<lparr>oside = sd, oprice = pr, originalVolume = vol,
      bidIt = (if sd = Bid then Some it else None), askIt = (if sd = Bid then None else Some it)\<rparr>"



text \<open>
  The effect of \<^verbatim>\<open>ModifyOrder(i, newVolume)\<close> on a registered order: \<open>b\<close> is the book
  before the call and \<open>b'\<close> the book after it. When a level with the order's price is
  in the order's side, it receives the difference of the volumes; if its volume is
  then 0 or less, the level and the order are gone, otherwise the order has the new
  volume; every other level and every other order is as before. When no level has
  the order's price, nothing changes.
\<close>

definition modify_effect :: "VectorBook \<Rightarrow> VectorBook \<Rightarrow> OrderId \<Rightarrow> Volume \<Rightarrow> bool" where
  "modify_effect b b' i newVolume =
     ((\<forall>d x. mOrders b i = Some d \<and> level_at (levels_of b (oside d)) (oprice d) = Some x \<longrightarrow>
        (if x + (newVolume - originalVolume d) \<le> 0
         then level_at (levels_of b' (oside d)) (oprice d) = None \<and> mOrders b' i = None
         else level_at (levels_of b' (oside d)) (oprice d) = Some (x + (newVolume - originalVolume d))
            \<and> mOrders b' i = Some (d\<lparr>originalVolume := newVolume\<rparr>))
      \<and> (\<forall>sd p. (sd, p) \<noteq> (oside d, oprice d) \<longrightarrow>
             level_at (levels_of b' sd) p = level_at (levels_of b sd) p)
      \<and> (\<forall>j. j \<noteq> i \<longrightarrow> mOrders b' j = mOrders b j))
    \<and> (\<forall>d. mOrders b i = Some d \<and> level_at (levels_of b (oside d)) (oprice d) = None \<longrightarrow> b' = b))"

text \<open>
  The same for the tree book, where \<open>r\<close> is the result of the calls before and \<open>r'\<close>
  the result with the call: when the calls before end in a book and the order's
  iterator points to a node of its map, the call is defined and the node is the
  level with the order's price. When the node of the order's iterator is gone, the
  call has no defined result.
\<close>

definition modify_effect_Map :: "OrderBookMap option \<Rightarrow> OrderBookMap option \<Rightarrow> OrderId \<Rightarrow> Volume \<Rightarrow> bool" where
  "modify_effect_Map r r' i newVolume =
     ((\<forall>m d n. r = Some m \<and> mOrdersMap m i = Some d \<and> deref (nodes_of m (oside d)) (it_of d) = Some n \<longrightarrow>
        first n = oprice d
      \<and> (\<exists>m'. r' = Some m'
          \<and> (if second n + (newVolume - originalVolume d) \<le> 0
             then level_at (map node_level (nodes_of m' (oside d))) (oprice d) = None
                \<and> mOrdersMap m' i = None
             else level_at (map node_level (nodes_of m' (oside d))) (oprice d)
                    = Some (second n + (newVolume - originalVolume d))
                \<and> mOrdersMap m' i = Some (d\<lparr>originalVolume := newVolume\<rparr>))
          \<and> (\<forall>sd p. (sd, p) \<noteq> (oside d, oprice d) \<longrightarrow>
                 level_at (map node_level (nodes_of m' sd)) p = level_at (map node_level (nodes_of m sd)) p)
          \<and> (\<forall>j. j \<noteq> i \<longrightarrow> mOrdersMap m' j = mOrdersMap m j)))
    \<and> (\<forall>m d. r = Some m \<and> mOrdersMap m i = Some d \<and> deref (nodes_of m (oside d)) (it_of d) = None \<longrightarrow>
          r' = None))"

text \<open>
  Whether \<^verbatim>\<open>ModifyOrder(i, newVolume)\<close> removes a registered order: it does when the
  volume of the order's level, with the difference of the volumes added, is 0 or
  less; otherwise the order stays in the registry with the new volume, whatever the
  new volume is.
\<close>

definition modify_removes :: "VectorBook \<Rightarrow> VectorBook \<Rightarrow> OrderId \<Rightarrow> Volume \<Rightarrow> bool" where
  "modify_removes b b' i newVolume =
     (\<forall>d x. mOrders b i = Some d \<and> level_at (levels_of b (oside d)) (oprice d) = Some x \<longrightarrow>
        map_option originalVolume (mOrders b' i) =
          (if x + (newVolume - originalVolume d) \<le> 0 then None else Some newVolume))"

definition modify_removes_Map :: "OrderBookMap option \<Rightarrow> OrderBookMap option \<Rightarrow> OrderId \<Rightarrow> Volume \<Rightarrow> bool" where
  "modify_removes_Map r r' i newVolume =
     (\<forall>m d n. r = Some m \<and> mOrdersMap m i = Some d \<and> deref (nodes_of m (oside d)) (it_of d) = Some n \<longrightarrow>
        (\<exists>m'. r' = Some m' \<and>
           map_option originalVolume (mOrdersMap m' i) =
             (if second n + (newVolume - originalVolume d) \<le> 0 then None else Some newVolume)))"

text \<open>
  The best prices as a function of the abstraction: the pair of 0 when a side has no
  level, otherwise the highest bid price and the lowest ask price.
\<close>

definition a_best :: "AbstractBook \<Rightarrow> Price \<times> Price" where
  "a_best A =
     (if dom (a_levels A Bid) = {} \<or> dom (a_levels A Ask) = {} then (0, 0)
      else (Max (dom (a_levels A Bid)), Min (dom (a_levels A Ask))))"

section \<open>The searches on sorted arrays\<close>

declare lower_bound_loop.simps [simp del] branchless_loop.simps [simp del]

lemma sorted_wrt_partition:
  assumes "transp R"
  shows "sorted_wrt R xs \<Longrightarrow> i < length xs \<Longrightarrow>
         R (xs ! i) v \<longleftrightarrow> i < length (takeWhile (\<lambda>x. R x v) xs)"
proof (induction xs arbitrary: i)
  case Nil
  then show ?case by simp
next
  case (Cons x xs)
  show ?case
  proof (cases "R x v")
    case True
    with Cons show ?thesis by (cases i) auto
  next
    case False
    have "\<not> R y v" if "y \<in> set xs" for y
    proof
      assume "R y v"
      moreover have "R x y" using Cons.prems(1) that by simp
      ultimately have "R x v" using assms by (meson transpD)
      with False show False ..
    qed
    with False Cons.prems(2) show ?thesis by (cases i) auto
  qed
qed

text \<open>
  On an array that is partitioned by \<open>\<lambda>x. cmp x v\<close> at position \<open>k\<close>, the loop of
  \<^verbatim>\<open>std::lower_bound\<close> returns \<open>k\<close> from every window that contains \<open>k\<close>; every
  element it reads is inside the array.
\<close>

lemma lower_bound_loop_position:
  "(\<forall>i<length xs. cmp (xs ! i) v \<longleftrightarrow> i < k) \<Longrightarrow> lo \<le> k \<Longrightarrow> k \<le> lo + count \<Longrightarrow>
   lo + count \<le> length xs \<Longrightarrow> lower_bound_loop xs v cmp lo count = k"
proof (induction xs v cmp lo count rule: lower_bound_loop.induct)
  case (1 xs val cmp lo count)
  show ?case
  proof (cases "count > 0")
    case False
    with "1.prems" show ?thesis by (simp add: lower_bound_loop.simps)
  next
    case True
    define step where "step = count div 2"
    define it where "it = lo + step"
    have it_lt: "it < length xs" using True "1.prems"(4) by (simp add: it_def step_def)
    show ?thesis
    proof (cases "cmp (xs ! it) val")
      case c: True
      then have "it < k" using "1.prems"(1) it_lt by blast
      then have "lower_bound_loop xs val cmp (Suc it) (count - (step + 1)) = k"
        using "1.IH"(1)[OF True step_def it_def c "1.prems"(1)] "1.prems" True
        by (simp add: it_def step_def)
      then show ?thesis using True c
        by (subst lower_bound_loop.simps) (simp add: Let_def it_def step_def)
    next
      case c: False
      then have "k \<le> it" using "1.prems"(1) it_lt by (meson not_less)
      then have "lower_bound_loop xs val cmp lo step = k"
        using "1.IH"(2)[OF True step_def it_def c "1.prems"(1)] "1.prems" True
        by (simp add: it_def step_def)
      then show ?thesis using True c
        by (subst lower_bound_loop.simps) (simp add: Let_def it_def step_def)
    qed
  qed
qed

text \<open>
  The same for the loop of \<^verbatim>\<open>branchless_lower_bound\<close>: when the probe is before the
  value the window moves up by \<open>len - half\<close>, which is at most \<open>half + 1\<close>, so the
  partition point stays inside the window of length \<open>half\<close>.
\<close>

lemma branchless_loop_position:
  "(\<forall>i<length xs. cmp (xs ! i) v \<longleftrightarrow> i < k) \<Longrightarrow> lo \<le> k \<Longrightarrow> k \<le> lo + len \<Longrightarrow>
   lo + len \<le> length xs \<Longrightarrow> branchless_loop xs v cmp lo len = k"
proof (induction xs v cmp lo len rule: branchless_loop.induct)
  case (1 xs val cmp lo len)
  show ?case
  proof (cases "len > 0")
    case False
    with "1.prems" show ?thesis by (simp add: branchless_loop.simps)
  next
    case True
    define half where "half = len div 2"
    define mid where "mid = lo + half"
    have mid_lt: "mid < length xs" using True "1.prems"(4) by (simp add: mid_def half_def)
    define lo' where "lo' = lo + (if cmp (xs ! mid) val then 1 else 0) * (len - half)"
    have "lo' \<le> k \<and> k \<le> lo' + half \<and> lo' + half \<le> length xs"
    proof (cases "cmp (xs ! mid) val")
      case c: True
      then have "mid < k" using "1.prems"(1) mid_lt by blast
      then show ?thesis using "1.prems" True c
        by (simp add: lo'_def mid_def half_def)
    next
      case c: False
      then have "k \<le> mid" using "1.prems"(1) mid_lt by (meson not_less)
      then show ?thesis using "1.prems" True c
        by (simp add: lo'_def mid_def half_def)
    qed
    then have "branchless_loop xs val cmp lo' half = k"
      using "1.IH"[OF True half_def mid_def "1.prems"(1)] by (simp add: lo'_def)
    then show ?thesis using True
      by (subst branchless_loop.simps) (simp add: Let_def lo'_def mid_def half_def)
  qed
qed

lemma find_if_takeWhile: "find_if xs (\<lambda>x. \<not> P x) = length (takeWhile P xs)"
  by (induction xs) auto

lemma lower_bound_sorted:
  assumes "transp R" "sorted_wrt R xs"
  shows "lower_bound xs v R = length (takeWhile (\<lambda>x. R x v) xs)"
  unfolding lower_bound_def
  by (rule lower_bound_loop_position)
     (use sorted_wrt_partition[OF assms] length_takeWhile_le[of "\<lambda>x. R x v" xs] in auto)

lemma branchless_lower_bound_sorted:
  assumes "transp R" "sorted_wrt R xs"
  shows "branchless_lower_bound xs v R = length (takeWhile (\<lambda>x. R x v) xs)"
  unfolding branchless_lower_bound_def
  by (rule branchless_loop_position)
     (use sorted_wrt_partition[OF assms] length_takeWhile_le[of "\<lambda>x. R x v" xs] in auto)

section \<open>Sorted level arrays\<close>

lemma is_comparator_irrefl: "is_comparator cmp \<Longrightarrow> \<not> cmp a a"
  by (auto simp: is_comparator_def)

lemma is_comparator_trans: "is_comparator cmp \<Longrightarrow> cmp a b \<Longrightarrow> cmp b c \<Longrightarrow> cmp a c"
  by (auto simp: is_comparator_def)

lemma is_comparator_total: "is_comparator cmp \<Longrightarrow> a \<noteq> b \<Longrightarrow> \<not> cmp a b \<Longrightarrow> cmp b a"
  by (auto simp: is_comparator_def)

lemma is_comparator_transp: "is_comparator cmp \<Longrightarrow> transp (by_price cmp)"
  by (auto simp: is_comparator_def by_price_def transp_def)

lemma is_comparator_simps [simp]: "is_comparator (<)" "is_comparator (>)"
  by (simp_all add: is_comparator_def)

lemma sorted_levels_Nil [simp]: "sorted_levels cmp []"
  by (simp add: sorted_levels_def)

lemma sorted_levels_Cons:
  "sorted_levels cmp (x # xs) \<longleftrightarrow> (\<forall>y\<in>set xs. cmp (price x) (price y)) \<and> sorted_levels cmp xs"
  by (simp add: sorted_levels_def by_price_def)

lemma sorted_levels_distinct:
  "is_comparator cmp \<Longrightarrow> sorted_levels cmp levels \<Longrightarrow> distinct (map price levels)"
  by (induction levels) (auto simp: sorted_levels_Cons is_comparator_irrefl)

lemma lower_bound_levels:
  "is_comparator cmp \<Longrightarrow> sorted_levels cmp levels \<Longrightarrow>
   lower_bound levels \<lparr>price = p, volume = v\<rparr> (by_price cmp) = insertion_point cmp levels p"
  by (simp add: lower_bound_sorted is_comparator_transp sorted_levels_def insertion_point_def by_price_def)

lemma branchless_lower_bound_levels:
  "is_comparator cmp \<Longrightarrow> sorted_levels cmp levels \<Longrightarrow>
   branchless_lower_bound levels \<lparr>price = p, volume = v\<rparr> (by_price cmp) = insertion_point cmp levels p"
  by (simp add: branchless_lower_bound_sorted is_comparator_transp sorted_levels_def insertion_point_def by_price_def)

lemma find_if_levels:
  "find_if levels (\<lambda>pl. \<not> cmp (price pl) p) = insertion_point cmp levels p"
  by (simp add: find_if_takeWhile insertion_point_def)

lemma insertion_point_le: "insertion_point cmp levels p \<le> length levels"
  by (simp add: insertion_point_def length_takeWhile_le)

lemma insertion_point_Cons:
  "insertion_point cmp (x # xs) p = (if cmp (price x) p then Suc (insertion_point cmp xs p) else 0)"
  by (simp add: insertion_point_def)

lemma insertion_point_found_iff:
  "is_comparator cmp \<Longrightarrow> sorted_levels cmp levels \<Longrightarrow>
   (insertion_point cmp levels p \<noteq> length levels \<and> price (levels ! insertion_point cmp levels p) = p)
     \<longleftrightarrow> p \<in> price ` set levels"
proof (induction levels)
  case Nil
  then show ?case by (simp add: insertion_point_def)
next
  case (Cons x xs)
  show ?case
  proof (cases "cmp (price x) p")
    case True
    then have "price x \<noteq> p" using Cons.prems(1) is_comparator_irrefl by blast
    with True Cons show ?thesis by (auto simp: insertion_point_Cons sorted_levels_Cons)
  next
    case False
    have "price y \<noteq> p" if "y \<in> set xs" for y
      using that False Cons.prems by (auto simp: sorted_levels_Cons)
    with False show ?thesis by (auto simp: insertion_point_Cons)
  qed
qed

lemma find_if_price_eq:
  "is_comparator cmp \<Longrightarrow> sorted_levels cmp levels \<Longrightarrow>
   find_if levels (\<lambda>pl. price pl = p) =
     (if p \<in> price ` set levels then insertion_point cmp levels p else length levels)"
proof (induction levels)
  case Nil
  then show ?case by simp
next
  case (Cons x xs)
  show ?case
  proof (cases "price x = p")
    case True
    then show ?thesis using Cons.prems by (simp add: insertion_point_Cons is_comparator_irrefl)
  next
    case False
    show ?thesis
    proof (cases "cmp (price x) p")
      case c: True
      with False Cons show ?thesis by (auto simp: insertion_point_Cons sorted_levels_Cons)
    next
      case c: False
      have "price y \<noteq> p" if "y \<in> set xs" for y
        using that c Cons.prems by (auto simp: sorted_levels_Cons)
      then have "p \<notin> price ` set xs" by auto
      with False c Cons show ?thesis by (auto simp: insertion_point_Cons sorted_levels_Cons)
    qed
  qed
qed

lemma insert_at_Cons: "insert_at (x # xs) (Suc k) e = x # insert_at xs k e" "insert_at xs 0 e = e # xs"
  by (simp_all add: insert_at_def)

lemma set_insert_at: "set (insert_at xs k e) = insert e (set xs)"
proof -
  have "set (take k xs) \<union> set (drop k xs) = set xs"
    by (metis append_take_drop_id set_append)
  then show ?thesis by (auto simp: insert_at_def)
qed

lemma sorted_insert_at:
  "is_comparator cmp \<Longrightarrow> sorted_levels cmp levels \<Longrightarrow> p \<notin> price ` set levels \<Longrightarrow>
   sorted_levels cmp (insert_at levels (insertion_point cmp levels p) \<lparr>price = p, volume = v\<rparr>)"
proof (induction levels)
  case Nil
  then show ?case by (simp add: insertion_point_def insert_at_def sorted_levels_def)
next
  case (Cons x xs)
  show ?case
  proof (cases "cmp (price x) p")
    case True
    with Cons show ?thesis
      by (auto simp: insertion_point_Cons insert_at_Cons sorted_levels_Cons set_insert_at)
  next
    case False
    have px: "cmp p (price x)"
      using False Cons.prems by (auto intro: is_comparator_total)
    have "cmp p (price y)" if "y \<in> set xs" for y
      using that px Cons.prems by (auto simp: sorted_levels_Cons intro: is_comparator_trans)
    with px False Cons.prems show ?thesis
      by (auto simp: insertion_point_Cons insert_at_Cons sorted_levels_Cons)
  qed
qed

lemma map_price_add_volume_at [simp]: "map price (add_volume_at levels i d) = map price levels"
proof (cases "i < length levels")
  case True
  then show ?thesis by (simp add: add_volume_at_def map_update list_update_same_conv)
next
  case False
  then have "levels[i := (levels ! i)\<lparr>volume := int64 (volume (levels ! i) + d)\<rparr>] = levels"
    by (intro list_update_beyond) simp
  then show ?thesis by (simp add: add_volume_at_def)
qed

lemma length_add_volume_at [simp]: "length (add_volume_at levels i d) = length levels"
  by (simp add: add_volume_at_def)

lemma sorted_levels_map: "sorted_levels cmp levels \<longleftrightarrow> sorted_wrt cmp (map price levels)"
  by (simp add: sorted_levels_def sorted_wrt_map by_price_def[abs_def])

lemma sorted_add_volume_at:
  "sorted_levels cmp levels \<Longrightarrow> sorted_levels cmp (add_volume_at levels i d)"
  by (simp add: sorted_levels_map)

lemma erase_at_Cons: "erase_at (x # xs) (Suc k) = x # erase_at xs k" "erase_at (x # xs) 0 = xs"
  "erase_at [] k = []"
  by (simp_all add: erase_at_def)

lemma set_erase_at_subset: "set (erase_at xs k) \<subseteq> set xs"
  by (auto simp: erase_at_def dest: in_set_takeD in_set_dropD)

lemma sorted_erase_at:
  "sorted_levels cmp levels \<Longrightarrow> sorted_levels cmp (erase_at levels i)"
proof (induction levels arbitrary: i)
  case Nil
  then show ?case by (simp add: erase_at_Cons)
next
  case (Cons x xs)
  then show ?case using set_erase_at_subset[of xs]
    by (cases i) (auto simp: erase_at_Cons sorted_levels_Cons)
qed

lemma level_at_Nil [simp]: "level_at [] = Map.empty"
  by (simp add: level_at_def)

lemma level_at_Cons: "level_at (x # xs) = (level_at xs)(price x \<mapsto> volume x)"
  by (simp add: level_at_def)

lemma level_at_None_iff: "level_at levels p = None \<longleftrightarrow> p \<notin> price ` set levels"
  by (simp add: level_at_def map_of_eq_None_iff image_image)

lemma nth_price_neq: "price x \<notin> price ` set xs \<Longrightarrow> j < length xs \<Longrightarrow> price (xs ! j) \<noteq> price x"
  by (metis imageI nth_mem)

lemma level_at_nth:
  "distinct (map price levels) \<Longrightarrow> k < length levels \<Longrightarrow>
   level_at levels (price (levels ! k)) = Some (volume (levels ! k))"
proof (induction levels arbitrary: k)
  case Nil
  then show ?case by simp
next
  case (Cons x xs)
  then show ?case by (cases k) (auto simp: level_at_Cons dest: nth_price_neq)
qed

lemma level_at_add_volume_at:
  "distinct (map price levels) \<Longrightarrow> k < length levels \<Longrightarrow>
   level_at (add_volume_at levels k d) = (level_at levels)(price (levels ! k) \<mapsto> int64 (volume (levels ! k) + d))"
proof (induction levels arbitrary: k)
  case Nil
  then show ?case by simp
next
  case (Cons x xs)
  show ?case
  proof (cases k)
    case 0
    then show ?thesis by (auto simp: add_volume_at_def level_at_Cons intro!: ext)
  next
    case (Suc j)
    then have "price (xs ! j) \<noteq> price x" using Cons.prems by (auto dest: nth_price_neq)
    moreover have "add_volume_at (x # xs) (Suc j) d = x # add_volume_at xs j d"
      by (simp add: add_volume_at_def)
    ultimately show ?thesis using Cons Suc
      by (auto simp: level_at_Cons fun_upd_twist)
  qed
qed

lemma level_at_insert_at:
  "p \<notin> price ` set levels \<Longrightarrow>
   level_at (insert_at levels k \<lparr>price = p, volume = v\<rparr>) = (level_at levels)(p \<mapsto> v)"
proof (induction levels arbitrary: k)
  case Nil
  then show ?case by (simp add: insert_at_def level_at_Cons)
next
  case (Cons x xs)
  then show ?case
    by (cases k) (auto simp: insert_at_Cons level_at_Cons fun_upd_twist)
qed

lemma level_at_erase_at:
  "distinct (map price levels) \<Longrightarrow> k < length levels \<Longrightarrow>
   level_at (erase_at levels k) = (level_at levels)(price (levels ! k) := None)"
proof (induction levels arbitrary: k)
  case Nil
  then show ?case by simp
next
  case (Cons x xs)
  show ?case
  proof (cases k)
    case 0
    have "level_at xs (price x) = None" using Cons.prems by (simp add: level_at_None_iff)
    then show ?thesis using 0 by (auto simp: erase_at_Cons level_at_Cons intro!: ext)
  next
    case (Suc j)
    then have "price (xs ! j) \<noteq> price x" using Cons.prems by (auto dest: nth_price_neq)
    then show ?thesis using Cons Suc
      by (auto simp: level_at_Cons erase_at_Cons fun_upd_twist)
  qed
qed

section \<open>The binary-search books and their abstraction\<close>

lemma Side_not_Bid [simp]: "(sd \<noteq> Bid) = (sd = Ask)"
  by (cases sd) simp_all

lemma partition_point_levels [simp]:
  "partition_point levels \<lparr>price = p, volume = v\<rparr> (by_price cmp) = insertion_point cmp levels p"
  by (simp add: partition_point_def insertion_point_def by_price_def)

lemma levels_of_simps [simp]:
  "levels_of b Bid = mBidLevels b" "levels_of b Ask = mAskLevels b"
  "levels_of (set_levels b sd l) sd' = (if sd' = sd then l else levels_of b sd')"
  "levels_of (b\<lparr>mOrders := os\<rparr>) sd = levels_of b sd"
  "mOrders (set_levels b sd l) = mOrders b"
  by (cases sd; cases sd'; simp add: levels_of_def set_levels_def)+

lemma sorted_book_levels_of:
  "sorted_book bc ac b \<longleftrightarrow> (\<forall>sd. sorted_levels (if sd = Bid then bc else ac) (levels_of b sd))"
  by (auto simp: sorted_book_def levels_of_def)

lemma found_iff_level_at:
  "is_comparator cmp \<Longrightarrow> sorted_levels cmp levels \<Longrightarrow>
   (insertion_point cmp levels p \<noteq> length levels \<and> price (levels ! insertion_point cmp levels p) = p)
     \<longleftrightarrow> level_at levels p \<noteq> None"
  by (simp add: insertion_point_found_iff level_at_None_iff)

lemma found_volume:
  assumes "is_comparator cmp" "sorted_levels cmp levels" "level_at levels p = Some x"
  shows "insertion_point cmp levels p < length levels"
    and "price (levels ! insertion_point cmp levels p) = p"
    and "volume (levels ! insertion_point cmp levels p) = x"
proof -
  have f: "insertion_point cmp levels p \<noteq> length levels \<and> price (levels ! insertion_point cmp levels p) = p"
    using assms by (simp add: found_iff_level_at)
  then show lt: "insertion_point cmp levels p < length levels"
    using insertion_point_le[of cmp levels p] by simp
  show "price (levels ! insertion_point cmp levels p) = p" using f by simp
  have "level_at levels (price (levels ! insertion_point cmp levels p))
          = Some (volume (levels ! insertion_point cmp levels p))"
    using assms lt by (intro level_at_nth sorted_levels_distinct)
  then show "volume (levels ! insertion_point cmp levels p) = x" using f assms(3) by simp
qed

lemma nth_add_volume_at:
  "k < length levels \<Longrightarrow> add_volume_at levels k d ! k = (levels ! k)\<lparr>volume := int64 (volume (levels ! k) + d)\<rparr>"
  by (simp add: add_volume_at_def)

text \<open>The effect of \<^verbatim>\<open>AddOrderImpl\<close> on a sorted array.\<close>

lemma AddOrderImpl_sorted:
  assumes "is_comparator cmp" "sorted_levels cmp levels"
  shows "sorted_levels cmp (AddOrderImpl partition_point levels pr vol cmp)"
  using assms
  by (auto simp: AddOrderImpl_def Let_def sorted_add_volume_at insertion_point_found_iff
      intro!: sorted_insert_at)

lemma AddOrderImpl_level_at:
  assumes "is_comparator cmp" "sorted_levels cmp levels"
  shows "level_at (AddOrderImpl partition_point levels pr vol cmp) =
         (level_at levels)(pr \<mapsto> (case level_at levels pr of None \<Rightarrow> vol | Some x \<Rightarrow> int64 (x + vol)))"
proof (cases "level_at levels pr")
  case None
  then have nf: "\<not> (insertion_point cmp levels pr \<noteq> length levels \<and>
                   price (levels ! insertion_point cmp levels pr) = pr)"
    using assms by (simp add: found_iff_level_at)
  have "pr \<notin> price ` set levels" using None by (simp add: level_at_None_iff)
  then show ?thesis using None nf
    by (auto simp: AddOrderImpl_def Let_def level_at_insert_at)
next
  case (Some x)
  note f = found_volume[OF assms Some]
  show ?thesis using Some f assms
    by (simp add: AddOrderImpl_def Let_def level_at_add_volume_at sorted_levels_distinct)
qed


lemma erase_after_add_level_at:
  assumes "is_comparator cmp" "sorted_levels cmp levels" "level_at levels p = Some x"
  shows "level_at (erase_at (add_volume_at levels (insertion_point cmp levels p) d) (insertion_point cmp levels p))
         = (level_at levels)(p := None)"
proof -
  let ?k = "insertion_point cmp levels p"
  note f = found_volume[OF assms]
  have dist: "distinct (map price levels)" using assms by (simp add: sorted_levels_distinct)
  have "level_at (erase_at (add_volume_at levels ?k d) ?k)
        = (level_at (add_volume_at levels ?k d))(price (add_volume_at levels ?k d ! ?k) := None)"
    using dist f(1) by (intro level_at_erase_at) simp_all
  also have "price (add_volume_at levels ?k d ! ?k) = p"
    using f by (simp add: nth_add_volume_at)
  also have "(level_at (add_volume_at levels ?k d))(p := None) = (level_at levels)(p := None)"
    using dist f by (simp add: level_at_add_volume_at)
  finally show ?thesis .
qed

lemma view_AddOrder:
  assumes "is_comparator bc" "is_comparator ac" "sorted_book bc ac b"
  shows "view (AddOrder_bs partition_point bc ac b i sd pr vol) = w_add (view b) i sd pr vol"
proof (cases "mOrders b i")
  case (Some d)
  then show ?thesis by (simp add: AddOrder_bs_def w_add_def view_def)
next
  case None
  show ?thesis
  proof (cases sd)
    case Bid
    then show ?thesis using None assms
      by (auto simp: AddOrder_bs_def w_add_def view_def levels_of_def sorted_book_def
          AddOrderImpl_level_at fun_eq_iff)
  next
    case Ask
    then show ?thesis using None assms
      by (auto simp: AddOrder_bs_def w_add_def view_def levels_of_def sorted_book_def
          AddOrderImpl_level_at fun_eq_iff)
  qed
qed

lemma view_set_levels:
  "view ((set_levels b sd l)\<lparr>mOrders := os\<rparr>) =
   \<lparr>a_levels = (a_levels (view b))(sd := level_at l), a_orders = os\<rparr>"
  by (auto simp: view_def fun_eq_iff)

lemma view_set_levels':
  "view (set_levels b sd l) =
   \<lparr>a_levels = (a_levels (view b))(sd := level_at l), a_orders = mOrders b\<rparr>"
  by (auto simp: view_def fun_eq_iff)

lemma view_orders:
  "view (b\<lparr>mOrders := os\<rparr>) = (view b)\<lparr>a_orders := os\<rparr>"
  by (auto simp: view_def fun_eq_iff)

lemma view_sel [simp]:
  "a_levels (view b) sd = level_at (levels_of b sd)" "a_orders (view b) = mOrders b"
  by (simp_all add: view_def)

lemma sorted_book_side:
  "is_comparator bc \<Longrightarrow> is_comparator ac \<Longrightarrow> sorted_book bc ac b \<Longrightarrow>
   is_comparator (if sd = Bid then bc else ac) \<and> sorted_levels (if sd = Bid then bc else ac) (levels_of b sd)"
  by (cases sd) (simp_all add: sorted_book_def)

lemma view_ModifyOrder:
  assumes "is_comparator bc" "is_comparator ac" "sorted_book bc ac b"
  shows "view (ModifyOrder_bs partition_point bc ac b i newVolume) = w_modify (view b) i newVolume"
proof (cases "mOrders b i")
  case None
  then show ?thesis by (simp add: ModifyOrder_bs_def w_modify_def)
next
  case (Some d)
  let ?cmp = "if oside d = Bid then bc else ac"
  let ?levels = "levels_of b (oside d)"
  have c: "is_comparator ?cmp" and s: "sorted_levels ?cmp ?levels"
    using sorted_book_side[OF assms, of "oside d"] by simp_all
  show ?thesis
  proof (cases "level_at ?levels (oprice d)")
    case n: None
    then have "\<not> (insertion_point ?cmp ?levels (oprice d) \<noteq> length ?levels \<and>
                 price (?levels ! insertion_point ?cmp ?levels (oprice d)) = oprice d)"
      using found_iff_level_at[OF c s, of "oprice d"] by simp
    then show ?thesis using Some n
      by (auto simp: ModifyOrder_bs_def w_modify_def Let_def)
  next
    case x: (Some x)
    note f = found_volume[OF c s x]
    have dist: "distinct (map price ?levels)" using c s by (rule sorted_levels_distinct)
    show ?thesis using Some x f erase_after_add_level_at[OF c s x] dist
      by (simp add: ModifyOrder_bs_def w_modify_def Let_def nth_add_volume_at view_set_levels
          level_at_add_volume_at)
  qed
qed

lemma view_DeleteOrder:
  assumes "is_comparator bc" "is_comparator ac" "sorted_book bc ac b"
  shows "view (DeleteOrder_bs partition_point bc ac b i) = w_delete (view b) i"
proof (cases "mOrders b i")
  case None
  then show ?thesis by (simp add: DeleteOrder_bs_def w_delete_def)
next
  case (Some d)
  let ?cmp = "if oside d = Bid then bc else ac"
  let ?levels = "levels_of b (oside d)"
  have c: "is_comparator ?cmp" and s: "sorted_levels ?cmp ?levels"
    using sorted_book_side[OF assms, of "oside d"] by simp_all
  show ?thesis
  proof (cases "level_at ?levels (oprice d)")
    case n: None
    then have "\<not> (insertion_point ?cmp ?levels (oprice d) \<noteq> length ?levels \<and>
                 price (?levels ! insertion_point ?cmp ?levels (oprice d)) = oprice d)"
      using found_iff_level_at[OF c s, of "oprice d"] by simp
    then show ?thesis using Some n
      by (auto simp: DeleteOrder_bs_def w_delete_def Let_def view_orders)
  next
    case x: (Some x)
    note f = found_volume[OF c s x]
    have dist: "distinct (map price ?levels)" using c s by (rule sorted_levels_distinct)
    show ?thesis using Some x f erase_after_add_level_at[OF c s x] dist
      by (simp add: DeleteOrder_bs_def w_delete_def Let_def nth_add_volume_at view_set_levels
          level_at_add_volume_at)
  qed
qed

lemma view_step_bs:
  assumes "is_comparator bc" "is_comparator ac" "sorted_book bc ac b"
  shows "view (step_bs partition_point bc ac b x) = w_step (view b) x"
  using assms by (cases x) (simp_all add: view_AddOrder view_ModifyOrder view_DeleteOrder)

lemma sorted_set_levels:
  "sorted_book bc ac b \<Longrightarrow> sorted_levels (if sd = Bid then bc else ac) l \<Longrightarrow>
   sorted_book bc ac (set_levels b sd l)"
  by (cases sd) (simp_all add: sorted_book_def set_levels_def)

lemma sorted_book_orders [simp]: "sorted_book bc ac (b\<lparr>mOrders := os\<rparr>) = sorted_book bc ac b"
  by (simp add: sorted_book_def)

lemma sorted_step_bs:
  assumes "is_comparator bc" "is_comparator ac" "sorted_book bc ac b"
  shows "sorted_book bc ac (step_bs partition_point bc ac b x)"
proof (cases x)
  case (Add i sd pr vol)
  then show ?thesis using assms
    by (auto simp: AddOrder_bs_def sorted_book_def AddOrderImpl_sorted)
next
  case (Modify i vol)
  show ?thesis
  proof (cases "mOrders b i")
    case None
    then show ?thesis using Modify assms by (simp add: ModifyOrder_bs_def)
  next
    case (Some d)
    have s: "sorted_levels (if oside d = Bid then bc else ac) (levels_of b (oside d))"
      using sorted_book_side[OF assms, of "oside d"] by simp
    show ?thesis using Modify Some assms s
      by (auto simp: ModifyOrder_bs_def Let_def intro!: sorted_set_levels sorted_erase_at sorted_add_volume_at)
  qed
next
  case (Delete i)
  show ?thesis
  proof (cases "mOrders b i")
    case None
    then show ?thesis using Delete assms by (simp add: DeleteOrder_bs_def)
  next
    case (Some d)
    have s: "sorted_levels (if oside d = Bid then bc else ac) (levels_of b (oside d))"
      using sorted_book_side[OF assms, of "oside d"] by simp
    show ?thesis using Delete Some assms s
      by (auto simp: DeleteOrder_bs_def Let_def intro!: sorted_set_levels sorted_erase_at sorted_add_volume_at)
  qed
qed

section \<open>Every class step on sorted arrays\<close>

lemma step_bs_lower_bound:
  assumes "is_comparator bc" "is_comparator ac" "sorted_book bc ac b"
  shows "step_bs lower_bound bc ac b x = step_bs partition_point bc ac b x"
proof (cases x)
  case (Add i sd pr vol)
  then show ?thesis using assms
    by (simp add: AddOrder_bs_def AddOrderImpl_def sorted_book_def lower_bound_levels)
next
  case (Modify i vol)
  show ?thesis
  proof (cases "mOrders b i")
    case None
    then show ?thesis using Modify by (simp add: ModifyOrder_bs_def)
  next
    case (Some d)
    then show ?thesis using Modify sorted_book_side[OF assms, of "oside d"]
      by (simp add: ModifyOrder_bs_def lower_bound_levels)
  qed
next
  case (Delete i)
  show ?thesis
  proof (cases "mOrders b i")
    case None
    then show ?thesis using Delete by (simp add: DeleteOrder_bs_def)
  next
    case (Some d)
    then show ?thesis using Delete sorted_book_side[OF assms, of "oside d"]
      by (simp add: DeleteOrder_bs_def lower_bound_levels)
  qed
qed

lemma step_bs_branchless:
  assumes "is_comparator bc" "is_comparator ac" "sorted_book bc ac b"
  shows "step_bs branchless_lower_bound bc ac b x = step_bs partition_point bc ac b x"
proof (cases x)
  case (Add i sd pr vol)
  then show ?thesis using assms
    by (simp add: AddOrder_bs_def AddOrderImpl_def sorted_book_def branchless_lower_bound_levels)
next
  case (Modify i vol)
  show ?thesis
  proof (cases "mOrders b i")
    case None
    then show ?thesis using Modify by (simp add: ModifyOrder_bs_def)
  next
    case (Some d)
    then show ?thesis using Modify sorted_book_side[OF assms, of "oside d"]
      by (simp add: ModifyOrder_bs_def branchless_lower_bound_levels)
  qed
next
  case (Delete i)
  show ?thesis
  proof (cases "mOrders b i")
    case None
    then show ?thesis using Delete by (simp add: DeleteOrder_bs_def)
  next
    case (Some d)
    then show ?thesis using Delete sorted_book_side[OF assms, of "oside d"]
      by (simp add: DeleteOrder_bs_def branchless_lower_bound_levels)
  qed
qed

lemma linear_found:
  assumes "is_comparator cmp" "sorted_levels cmp levels"
  shows "find_if levels (\<lambda>pl. price pl = p) \<noteq> length levels \<longleftrightarrow>
         (insertion_point cmp levels p \<noteq> length levels \<and> price (levels ! insertion_point cmp levels p) = p)"
    and "find_if levels (\<lambda>pl. price pl = p) \<noteq> length levels \<Longrightarrow>
         find_if levels (\<lambda>pl. price pl = p) = insertion_point cmp levels p"
  using assms insertion_point_found_iff[OF assms, of p]
  by (auto simp: find_if_price_eq[OF assms])

lemma linear_found_facts:
  assumes "is_comparator cmp" "sorted_levels cmp L" "p \<in> price ` set L"
  shows "find_if L (\<lambda>pl. price pl = p) = insertion_point cmp L p"
    and "insertion_point cmp L p \<noteq> length L"
    and "price (L ! insertion_point cmp L p) = p"
  using assms insertion_point_found_iff[OF assms(1,2), of p] find_if_price_eq[OF assms(1,2), of p]
  by simp_all

lemma linear_notfound_facts:
  assumes "is_comparator cmp" "sorted_levels cmp L" "p \<notin> price ` set L"
  shows "find_if L (\<lambda>pl. price pl = p) = length L"
    and "\<not> (insertion_point cmp L p \<noteq> length L \<and> price (L ! insertion_point cmp L p) = p)"
  using assms insertion_point_found_iff[OF assms(1,2), of p] find_if_price_eq[OF assms(1,2), of p]
  by simp_all

lemma Linear_ModifyOrder_eq:
  assumes "sorted_book (<) (>) b"
  shows "OrderBookVectorLinear_ModifyOrder b i vol = ModifyOrder_bs partition_point (<) (>) b i vol"
proof (cases "mOrders b i")
  case None
  then show ?thesis by (simp add: ModifyOrder_bs_def OrderBookVectorLinear_ModifyOrder_def)
next
  case (Some d)
  show ?thesis
  proof (cases "oside d")
    case Bid
    have cs: "is_comparator ((<) :: Price \<Rightarrow> Price \<Rightarrow> bool)" "sorted_levels (<) (mBidLevels b)"
      using assms by (simp_all add: sorted_book_def)
    show ?thesis
    proof (cases "oprice d \<in> price ` set (mBidLevels b)")
      case True
      note f = linear_found_facts[OF cs True]
      show ?thesis using Some Bid
        by (simp add: ModifyOrder_bs_def OrderBookVectorLinear_ModifyOrder_def Let_def f)
    next
      case False
      note f = linear_notfound_facts[OF cs False]
      show ?thesis using Some Bid f(2)
        by (auto simp: ModifyOrder_bs_def OrderBookVectorLinear_ModifyOrder_def Let_def f(1))
    qed
  next
    case Ask
    have cs: "is_comparator ((>) :: Price \<Rightarrow> Price \<Rightarrow> bool)" "sorted_levels (>) (mAskLevels b)"
      using assms by (simp_all add: sorted_book_def)
    show ?thesis
    proof (cases "oprice d \<in> price ` set (mAskLevels b)")
      case True
      note f = linear_found_facts[OF cs True]
      show ?thesis using Some Ask
        by (simp add: ModifyOrder_bs_def OrderBookVectorLinear_ModifyOrder_def Let_def f)
    next
      case False
      note f = linear_notfound_facts[OF cs False]
      show ?thesis using Some Ask f(2)
        by (auto simp: ModifyOrder_bs_def OrderBookVectorLinear_ModifyOrder_def Let_def f(1))
    qed
  qed
qed

lemma Linear_DeleteOrder_eq:
  assumes "sorted_book (<) (>) b"
  shows "OrderBookVectorLinear_DeleteOrder b i = DeleteOrder_bs partition_point (<) (>) b i"
proof (cases "mOrders b i")
  case None
  then show ?thesis by (simp add: DeleteOrder_bs_def OrderBookVectorLinear_DeleteOrder_def)
next
  case (Some d)
  show ?thesis
  proof (cases "oside d")
    case Bid
    have cs: "is_comparator ((<) :: Price \<Rightarrow> Price \<Rightarrow> bool)" "sorted_levels (<) (mBidLevels b)"
      using assms by (simp_all add: sorted_book_def)
    show ?thesis
    proof (cases "oprice d \<in> price ` set (mBidLevels b)")
      case True
      note f = linear_found_facts[OF cs True]
      show ?thesis using Some Bid
        by (simp add: DeleteOrder_bs_def OrderBookVectorLinear_DeleteOrder_def Let_def f)
    next
      case False
      note f = linear_notfound_facts[OF cs False]
      show ?thesis using Some Bid f(2)
        by (auto simp: DeleteOrder_bs_def OrderBookVectorLinear_DeleteOrder_def Let_def f(1))
    qed
  next
    case Ask
    have cs: "is_comparator ((>) :: Price \<Rightarrow> Price \<Rightarrow> bool)" "sorted_levels (>) (mAskLevels b)"
      using assms by (simp_all add: sorted_book_def)
    show ?thesis
    proof (cases "oprice d \<in> price ` set (mAskLevels b)")
      case True
      note f = linear_found_facts[OF cs True]
      show ?thesis using Some Ask
        by (simp add: DeleteOrder_bs_def OrderBookVectorLinear_DeleteOrder_def Let_def f)
    next
      case False
      note f = linear_notfound_facts[OF cs False]
      show ?thesis using Some Ask f(2)
        by (auto simp: DeleteOrder_bs_def OrderBookVectorLinear_DeleteOrder_def Let_def f(1))
    qed
  qed
qed


lemma step_Linear_partition_point:
  assumes "sorted_book (<) (>) b"
  shows "step_Linear b x = step_bs partition_point (<) (>) b x"
proof (cases x)
  case (Add i sd pr vol)
  have "AddOrderImpl_Linear levels pr vol cmp = AddOrderImpl partition_point levels pr vol cmp"
    for levels cmp
    by (simp add: AddOrderImpl_def AddOrderImpl_Linear_def find_if_levels)
  with Add show ?thesis
    by (simp add: OrderBookVectorLinear_AddOrder_def AddOrder_bs_def)
next
  case (Modify i vol)
  then show ?thesis using assms by (simp add: Linear_ModifyOrder_eq)
next
  case (Delete i)
  then show ?thesis using assms by (simp add: Linear_DeleteOrder_eq)
qed

lemma step_Vector_bs: "step_Vector b x = step_bs lower_bound (>) (<) b x"
  by (cases x) (simp_all add: OrderBookVector_AddOrder_def OrderBookVector_ModifyOrder_def
      OrderBookVector_DeleteOrder_def)

lemma step_Efficient_bs: "step_Efficient b x = step_bs lower_bound (<) (>) b x"
  by (cases x) (simp_all add: OrderBookVectorEfficient_AddOrder_def OrderBookVectorEfficient_ModifyOrder_def
      OrderBookVectorEfficient_DeleteOrder_def)

lemma step_Branchless_bs: "step_Branchless b x = step_bs branchless_lower_bound (<) (>) b x"
  by (cases x) (simp_all add: OrderBookVectorBranchless_AddOrder_def OrderBookVectorBranchless_ModifyOrder_def
      OrderBookVectorBranchless_DeleteOrder_def)

text \<open>Runs, from any sorted book.\<close>

lemma foldl_step_sorted_aux:
  assumes "is_comparator bc" "is_comparator ac"
    and "\<And>b x. sorted_book bc ac b \<Longrightarrow> stp b x = step_bs partition_point bc ac b x"
  shows "sorted_book bc ac b \<Longrightarrow>
         sorted_book bc ac (foldl stp b xs)
       \<and> foldl stp b xs = foldl (step_bs partition_point bc ac) b xs
       \<and> view (foldl stp b xs) = foldl w_step (view b) xs"
proof (induction xs arbitrary: b)
  case Nil
  then show ?case by simp
next
  case (Cons x xs)
  have e: "stp b x = step_bs partition_point bc ac b x" using assms(3) Cons.prems by simp
  have s: "sorted_book bc ac (stp b x)" using e sorted_step_bs[OF assms(1,2) Cons.prems] by simp
  have v: "view (stp b x) = w_step (view b) x" using e view_step_bs[OF assms(1,2) Cons.prems] by simp
  from Cons.IH[OF s]
  have ih1: "sorted_book bc ac (foldl stp (stp b x) xs)"
    and ih2: "foldl stp (stp b x) xs = foldl (step_bs partition_point bc ac) (stp b x) xs"
    and ih3: "view (foldl stp (stp b x) xs) = foldl w_step (view (stp b x)) xs"
    by blast+
  have a: "sorted_book bc ac (foldl stp b (x # xs))" using ih1 by simp
  have b: "foldl stp b (x # xs) = foldl (step_bs partition_point bc ac) b (x # xs)"
    using ih2 by (simp add: e)
  have c: "view (foldl stp b (x # xs)) = foldl w_step (view b) (x # xs)"
    using ih3 by (simp add: v)
  show ?case using a b c by blast
qed

lemma foldl_step_sorted:
  assumes "is_comparator bc" "is_comparator ac"
    and "\<And>b x. sorted_book bc ac b \<Longrightarrow> stp b x = step_bs partition_point bc ac b x"
    and "sorted_book bc ac b"
  shows "sorted_book bc ac (foldl stp b xs)"
    and "foldl stp b xs = foldl (step_bs partition_point bc ac) b xs"
    and "view (foldl stp b xs) = foldl w_step (view b) xs"
  using foldl_step_sorted_aux[OF assms, of xs] by blast+

lemma sorted_book_empty [simp]: "sorted_book bc ac emptyVectorBook"
  by (simp add: sorted_book_def emptyVectorBook_def)

lemma view_empty [simp]: "view emptyVectorBook = a_empty"
  by (auto simp: view_def a_empty_def emptyVectorBook_def levels_of_def fun_eq_iff)

lemma run_Vector_facts:
  "sorted_book (>) (<) (run_Vector xs)" "view (run_Vector xs) = w_run xs"
  "run_Vector xs = foldl (step_bs partition_point (>) (<)) emptyVectorBook xs"
proof -
  have st: "\<And>b x. sorted_book (>) (<) b \<Longrightarrow> step_Vector b x = step_bs partition_point (>) (<) b x"
    by (simp add: step_Vector_bs step_bs_lower_bound)
  note f = foldl_step_sorted[of "(>)" "(<)" step_Vector emptyVectorBook, OF is_comparator_simps(2) is_comparator_simps(1) st sorted_book_empty]
  show "sorted_book (>) (<) (run_Vector xs)"
    using f(1)[of xs] by (simp add: run_Vector_def)
  show "view (run_Vector xs) = w_run xs"
    using f(3)[of xs] by (simp add: run_Vector_def w_run_def)
  show "run_Vector xs = foldl (step_bs partition_point (>) (<)) emptyVectorBook xs"
    using f(2)[of xs] by (simp add: run_Vector_def)
qed

lemma run_Efficient_facts:
  "sorted_book (<) (>) (run_Efficient xs)" "view (run_Efficient xs) = w_run xs"
  "run_Efficient xs = foldl (step_bs partition_point (<) (>)) emptyVectorBook xs"
proof -
  have st: "\<And>b x. sorted_book (<) (>) b \<Longrightarrow> step_Efficient b x = step_bs partition_point (<) (>) b x"
    by (simp add: step_Efficient_bs step_bs_lower_bound)
  note f = foldl_step_sorted[of "(<)" "(>)" step_Efficient emptyVectorBook, OF is_comparator_simps(1) is_comparator_simps(2) st sorted_book_empty]
  show "sorted_book (<) (>) (run_Efficient xs)"
    using f(1)[of xs] by (simp add: run_Efficient_def)
  show "view (run_Efficient xs) = w_run xs"
    using f(3)[of xs] by (simp add: run_Efficient_def w_run_def)
  show "run_Efficient xs = foldl (step_bs partition_point (<) (>)) emptyVectorBook xs"
    using f(2)[of xs] by (simp add: run_Efficient_def)
qed

lemma run_Branchless_facts:
  "sorted_book (<) (>) (run_Branchless xs)" "view (run_Branchless xs) = w_run xs"
  "run_Branchless xs = foldl (step_bs partition_point (<) (>)) emptyVectorBook xs"
proof -
  have st: "\<And>b x. sorted_book (<) (>) b \<Longrightarrow> step_Branchless b x = step_bs partition_point (<) (>) b x"
    by (simp add: step_Branchless_bs step_bs_branchless)
  note f = foldl_step_sorted[of "(<)" "(>)" step_Branchless emptyVectorBook, OF is_comparator_simps(1) is_comparator_simps(2) st sorted_book_empty]
  show "sorted_book (<) (>) (run_Branchless xs)"
    using f(1)[of xs] by (simp add: run_Branchless_def)
  show "view (run_Branchless xs) = w_run xs"
    using f(3)[of xs] by (simp add: run_Branchless_def w_run_def)
  show "run_Branchless xs = foldl (step_bs partition_point (<) (>)) emptyVectorBook xs"
    using f(2)[of xs] by (simp add: run_Branchless_def)
qed

lemma run_Linear_facts:
  "sorted_book (<) (>) (run_Linear xs)" "view (run_Linear xs) = w_run xs"
  "run_Linear xs = foldl (step_bs partition_point (<) (>)) emptyVectorBook xs"
proof -
  have st: "\<And>b x. sorted_book (<) (>) b \<Longrightarrow> step_Linear b x = step_bs partition_point (<) (>) b x"
    by (simp add: step_Linear_partition_point)
  note f = foldl_step_sorted[of "(<)" "(>)" step_Linear emptyVectorBook, OF is_comparator_simps(1) is_comparator_simps(2) st sorted_book_empty]
  show "sorted_book (<) (>) (run_Linear xs)"
    using f(1)[of xs] by (simp add: run_Linear_def)
  show "view (run_Linear xs) = w_run xs"
    using f(3)[of xs] by (simp add: run_Linear_def w_run_def)
  show "run_Linear xs = foldl (step_bs partition_point (<) (>)) emptyVectorBook xs"
    using f(2)[of xs] by (simp add: run_Linear_def)
qed

section \<open>Invariants of the abstraction\<close>

lemma live_set_finite [simp]:
  "finite {i::OrderId. \<exists>d. orders i = Some d \<and> P d}"
  by simp

lemma live_volume_add:
  assumes "orders i = None"
  shows "live_volume (orders(i \<mapsto> d)) sd p =
         live_volume orders sd p + (if oside d = sd \<and> oprice d = p then originalVolume d else 0)"
proof -
  define S where "S = {j. \<exists>e. orders j = Some e \<and> oside e = sd \<and> oprice e = p}"
  define S' where "S' = {j. \<exists>e. (orders(i \<mapsto> d)) j = Some e \<and> oside e = sd \<and> oprice e = p}"
  define f where "f = (\<lambda>j. originalVolume (the (orders j)))"
  define f' where "f' = (\<lambda>j. originalVolume (the ((orders(i \<mapsto> d)) j)))"
  have fin: "finite S" by (simp add: S_def)
  have notin: "i \<notin> S" using assms by (simp add: S_def)
  have same: "sum f' S = sum f S"
    using notin by (intro sum.cong) (auto simp: f_def f'_def)
  have lv: "live_volume orders sd p = sum f S" "live_volume (orders(i \<mapsto> d)) sd p = sum f' S'"
    by (simp_all only: live_volume_def S_def S'_def f_def f'_def)
  show ?thesis
  proof (cases "oside d = sd \<and> oprice d = p")
    case True
    then have "S' = insert i S" using assms by (auto simp: S_def S'_def)
    then have "sum f' S' = f' i + sum f' S" using fin notin by simp
    moreover have "f' i = originalVolume d" by (simp add: f'_def)
    ultimately show ?thesis using True same lv by simp
  next
    case False
    then have "S' = S" using assms by (auto simp: S_def S'_def)
    then show ?thesis using False same lv by auto
  qed
qed

lemma live_volume_del:
  assumes "orders i = Some d"
  shows "live_volume (orders(i := None)) sd p =
         live_volume orders sd p - (if oside d = sd \<and> oprice d = p then originalVolume d else 0)"
proof -
  have "orders = (orders(i := None))(i \<mapsto> d)" using assms by auto
  then have "live_volume orders sd p = live_volume ((orders(i := None))(i \<mapsto> d)) sd p" by simp
  also have "\<dots> = live_volume (orders(i := None)) sd p
                  + (if oside d = sd \<and> oprice d = p then originalVolume d else 0)"
    by (rule live_volume_add) simp
  finally show ?thesis by simp
qed

lemma live_volume_upd:
  assumes "orders i = Some d"
  shows "live_volume (orders(i \<mapsto> d\<lparr>originalVolume := n\<rparr>)) sd p =
         live_volume orders sd p + (if oside d = sd \<and> oprice d = p then n - originalVolume d else 0)"
proof -
  have "orders(i \<mapsto> d\<lparr>originalVolume := n\<rparr>) = (orders(i := None))(i \<mapsto> d\<lparr>originalVolume := n\<rparr>)"
    by simp
  then have "live_volume (orders(i \<mapsto> d\<lparr>originalVolume := n\<rparr>)) sd p
           = live_volume ((orders(i := None))(i \<mapsto> d\<lparr>originalVolume := n\<rparr>)) sd p" by simp
  also have "\<dots> = live_volume (orders(i := None)) sd p
                  + (if oside d = sd \<and> oprice d = p then n else 0)"
    using live_volume_add[of "orders(i := None)" i "d\<lparr>originalVolume := n\<rparr>" sd p] by simp
  finally show ?thesis
    using live_volume_del[where orders=orders and i=i and d=d and sd=sd and p=p, OF assms] by simp
qed

lemma live_volume_pos:
  assumes "\<forall>i d. orders i = Some d \<longrightarrow> 0 < originalVolume d" "orders i = Some d"
  shows "0 < live_volume orders (oside d) (oprice d)"
  unfolding live_volume_def
proof (rule sum_pos)
  show "finite {j. \<exists>e. orders j = Some e \<and> oside e = oside d \<and> oprice e = oprice d}" by simp
  show "{j. \<exists>e. orders j = Some e \<and> oside e = oside d \<and> oprice e = oprice d} \<noteq> {}"
    using assms(2) by auto
  show "0 < originalVolume (the (orders j))"
    if "j \<in> {j. \<exists>e. orders j = Some e \<and> oside e = oside d \<and> oprice e = oprice d}" for j
    using that assms(1) by auto
qed

lemma live_volume_none:
  assumes "\<forall>i d. orders i = Some d \<longrightarrow> \<not> (oside d = sd \<and> oprice d = p)"
  shows "live_volume orders sd p = 0"
proof -
  have "{j. \<exists>e. orders j = Some e \<and> oside e = sd \<and> oprice e = p} = {}" using assms by auto
  then show ?thesis unfolding live_volume_def by (simp only: sum.empty)
qed

lemma a_pos_step:
  assumes "positive_add x" "a_pos A"
  shows "a_pos (a_step A x)"
proof (cases x)
  case (Add i sd pr vol)
  have "0 < x + vol" if "a_levels A sd pr = Some x" for x
    using that assms Add by (auto simp: a_pos_def intro: add_pos_pos)
  then show ?thesis using Add assms
    by (auto simp: a_pos_def a_add_def split: option.splits if_splits)
next
  case (Modify i vol)
  then show ?thesis using assms
    by (auto simp: a_pos_def a_modify_def split: option.splits if_splits)
next
  case (Delete i)
  then show ?thesis using assms
    by (auto simp: a_pos_def a_delete_def split: option.splits if_splits)
qed

lemma a_ordpos_step:
  assumes "positive_volume x" "a_ordpos A"
  shows "a_ordpos (a_step A x)"
proof (cases x)
  case (Add i sd pr vol)
  then show ?thesis using assms
    by (auto simp: a_ordpos_def a_add_def split: option.splits if_splits)
next
  case (Modify i vol)
  then show ?thesis using assms
    by (auto simp: a_ordpos_def a_modify_def split: option.splits if_splits)
next
  case (Delete i)
  then show ?thesis using assms
    by (auto simp: a_ordpos_def a_delete_def split: option.splits if_splits)
qed

lemma a_consistent_add:
  assumes "a_sum A" "a_has A"
  shows "a_sum (a_add A i sd pr vol) \<and> a_has (a_add A i sd pr vol)"
proof (cases "a_orders A i")
  case (Some d)
  then show ?thesis using assms by (simp add: a_add_def)
next
  case None
  let ?d = "\<lparr>oside = sd, oprice = pr, originalVolume = vol\<rparr>"
  have lv: "live_volume ((a_orders A)(i \<mapsto> ?d)) sd' p =
            live_volume (a_orders A) sd' p + (if sd = sd' \<and> pr = p then vol else 0)" for sd' p
    using live_volume_add[where orders="a_orders A" and i=i and d="?d" and sd=sd' and p=p, OF None] by simp
  have zero: "live_volume (a_orders A) sd pr = 0" if "a_levels A sd pr = None"
  proof (rule live_volume_none, intro allI impI notI)
    fix j e assume je: "a_orders A j = Some e" and m: "oside e = sd \<and> oprice e = pr"
    have "a_levels A (oside e) (oprice e) \<noteq> None"
      using assms(2) je unfolding a_has_def by blast
    then show False using m that by simp
  qed
  have s: "a_sum (a_add A i sd pr vol)"
    unfolding a_sum_def
  proof (intro allI impI)
    fix sd' p v assume "a_levels (a_add A i sd pr vol) sd' p = Some v"
    then show "v = live_volume (a_orders (a_add A i sd pr vol)) sd' p"
      using None assms(1) zero lv[of sd' p]
      by (auto simp: a_add_def a_sum_def split: option.splits if_splits)
  qed
  have h: "a_has (a_add A i sd pr vol)"
    using None assms(2) by (auto simp: a_add_def a_has_def)
  show ?thesis using s h by simp
qed

lemma a_has_update:
  assumes "a_has A"
    and "\<And>j e. os j = Some e \<Longrightarrow> \<exists>e0. a_orders A j = Some e0 \<and> oside e0 = oside e \<and> oprice e0 = oprice e"
  shows "a_has \<lparr>a_levels = (a_levels A)(sd := (a_levels A sd)(p \<mapsto> v)), a_orders = os\<rparr>"
  unfolding a_has_def
proof (intro allI impI)
  fix j e
  assume "a_orders \<lparr>a_levels = (a_levels A)(sd := (a_levels A sd)(p \<mapsto> v)), a_orders = os\<rparr> j = Some e"
  then have "os j = Some e" by simp
  then obtain e0 where e0: "a_orders A j = Some e0" "oside e0 = oside e" "oprice e0 = oprice e"
    using assms(2) by blast
  have "a_levels A (oside e0) (oprice e0) \<noteq> None"
    using assms(1) e0(1) unfolding a_has_def by blast
  then show "a_levels \<lparr>a_levels = (a_levels A)(sd := (a_levels A sd)(p \<mapsto> v)), a_orders = os\<rparr> (oside e) (oprice e) \<noteq> None"
    using e0 by auto
qed

lemma a_consistent_modify:
  assumes "0 < newVolume" "a_ordpos A" "a_sum A" "a_has A"
  shows "a_sum (a_modify A i newVolume) \<and> a_has (a_modify A i newVolume)"
proof (cases "a_orders A i")
  case None
  then show ?thesis using assms by (simp add: a_modify_def)
next
  case (Some d)
  obtain x where x: "a_levels A (oside d) (oprice d) = Some x"
    using assms(4) Some by (auto simp: a_has_def)
  let ?orders' = "(a_orders A)(i \<mapsto> d\<lparr>originalVolume := newVolume\<rparr>)"
  have lv: "live_volume ?orders' sd p =
            live_volume (a_orders A) sd p
            + (if oside d = sd \<and> oprice d = p then newVolume - originalVolume d else 0)" for sd p
    by (rule live_volume_upd[where orders="a_orders A" and i=i and d=d, OF Some])
  have xs: "x = live_volume (a_orders A) (oside d) (oprice d)"
    using assms(3) x by (simp add: a_sum_def)
  have pos': "\<forall>j e. ?orders' j = Some e \<longrightarrow> 0 < originalVolume e"
    using assms(1,2) by (auto simp: a_ordpos_def)
  have "0 < live_volume ?orders' (oside (d\<lparr>originalVolume := newVolume\<rparr>)) (oprice (d\<lparr>originalVolume := newVolume\<rparr>))"
    by (rule live_volume_pos[where orders="?orders'" and i=i and d="d\<lparr>originalVolume := newVolume\<rparr>", OF pos']) simp
  then have gt: "0 < x + (newVolume - originalVolume d)"
    using lv[of "oside d" "oprice d"] xs by simp
  have eq: "a_modify A i newVolume =
        \<lparr>a_levels = (a_levels A)(oside d := (a_levels A (oside d))(oprice d \<mapsto> x + (newVolume - originalVolume d))),
         a_orders = ?orders'\<rparr>"
    using Some x gt by (simp add: a_modify_def)
  have s: "a_sum (a_modify A i newVolume)"
    unfolding a_sum_def eq
  proof (intro allI impI)
    fix sd p v
    assume "a_levels \<lparr>a_levels = (a_levels A)(oside d := (a_levels A (oside d))(oprice d \<mapsto> x + (newVolume - originalVolume d))),
         a_orders = ?orders'\<rparr> sd p = Some v"
    then show "v = live_volume (a_orders \<lparr>a_levels = (a_levels A)(oside d := (a_levels A (oside d))(oprice d \<mapsto> x + (newVolume - originalVolume d))),
         a_orders = ?orders'\<rparr>) sd p"
      using assms(3) xs lv[of sd p] by (auto simp: a_sum_def split: if_splits)
  qed
  have h: "a_has (a_modify A i newVolume)"
    unfolding eq using Some by (intro a_has_update[OF assms(4)]) (auto split: if_splits)
  show ?thesis using s h by simp
qed

lemma a_consistent_delete:
  assumes "a_ordpos A" "a_sum A" "a_has A"
  shows "a_sum (a_delete A i) \<and> a_has (a_delete A i)"
proof (cases "a_orders A i")
  case None
  then show ?thesis using assms by (simp add: a_delete_def)
next
  case (Some d)
  obtain x where x: "a_levels A (oside d) (oprice d) = Some x"
    using assms(3) Some by (auto simp: a_has_def)
  let ?orders' = "(a_orders A)(i := None)"
  have lv: "live_volume ?orders' sd p =
            live_volume (a_orders A) sd p
            - (if oside d = sd \<and> oprice d = p then originalVolume d else 0)" for sd p
    by (rule live_volume_del[where orders="a_orders A" and i=i and d=d, OF Some])
  have xs: "x = live_volume (a_orders A) (oside d) (oprice d)"
    using assms(2) x by (simp add: a_sum_def)
  have pos': "\<forall>j e. ?orders' j = Some e \<longrightarrow> 0 < originalVolume e"
    using assms(1) by (auto simp: a_ordpos_def)
  have x': "x - originalVolume d = live_volume ?orders' (oside d) (oprice d)"
    using lv[of "oside d" "oprice d"] xs by simp
  show ?thesis
  proof (cases "x - originalVolume d \<le> 0")
    case True
    have eq: "a_delete A i =
        \<lparr>a_levels = (a_levels A)(oside d := (a_levels A (oside d))(oprice d := None)),
         a_orders = ?orders'\<rparr>"
      using Some x True by (simp add: a_delete_def)
    have noother: "\<not> (oside e = oside d \<and> oprice e = oprice d)" if "?orders' j = Some e" for j e
    proof
      assume "oside e = oside d \<and> oprice e = oprice d"
      then have "0 < live_volume ?orders' (oside d) (oprice d)"
        using live_volume_pos[where orders="?orders'" and i=j and d=e, OF pos' that] by simp
      then show False using True x' by simp
    qed
    have s: "a_sum (a_delete A i)"
      unfolding a_sum_def eq
    proof (intro allI impI)
      fix sd p v
      assume "a_levels \<lparr>a_levels = (a_levels A)(oside d := (a_levels A (oside d))(oprice d := None)),
         a_orders = ?orders'\<rparr> sd p = Some v"
      then show "v = live_volume (a_orders \<lparr>a_levels = (a_levels A)(oside d := (a_levels A (oside d))(oprice d := None)),
         a_orders = ?orders'\<rparr>) sd p"
        using assms(2) lv[of sd p] by (auto simp: a_sum_def split: if_splits)
    qed
    have h: "a_has (a_delete A i)"
      unfolding eq a_has_def
    proof (intro allI impI)
      fix j e
      assume "a_orders \<lparr>a_levels = (a_levels A)(oside d := (a_levels A (oside d))(oprice d := None)),
         a_orders = ?orders'\<rparr> j = Some e"
      then have je: "?orders' j = Some e" by simp
      then have "a_orders A j = Some e" by (auto split: if_splits)
      then have "a_levels A (oside e) (oprice e) \<noteq> None" using assms(3) by (auto simp: a_has_def)
      then show "a_levels \<lparr>a_levels = (a_levels A)(oside d := (a_levels A (oside d))(oprice d := None)),
         a_orders = ?orders'\<rparr> (oside e) (oprice e) \<noteq> None"
        using noother[OF je] by auto
    qed
    show ?thesis using s h by simp
  next
    case False
    have eq: "a_delete A i =
        \<lparr>a_levels = (a_levels A)(oside d := (a_levels A (oside d))(oprice d \<mapsto> x - originalVolume d)),
         a_orders = ?orders'\<rparr>"
      using Some x False by (simp add: a_delete_def)
    have s: "a_sum (a_delete A i)"
      unfolding a_sum_def eq
    proof (intro allI impI)
      fix sd p v
      assume "a_levels \<lparr>a_levels = (a_levels A)(oside d := (a_levels A (oside d))(oprice d \<mapsto> x - originalVolume d)),
         a_orders = ?orders'\<rparr> sd p = Some v"
      then show "v = live_volume (a_orders \<lparr>a_levels = (a_levels A)(oside d := (a_levels A (oside d))(oprice d \<mapsto> x - originalVolume d)),
         a_orders = ?orders'\<rparr>) sd p"
        using assms(2) x' lv[of sd p] by (auto simp: a_sum_def split: if_splits)
    qed
    have h: "a_has (a_delete A i)"
      unfolding eq by (intro a_has_update[OF assms(3)]) (auto split: if_splits)
    show ?thesis using s h by simp
  qed
qed

section \<open>Runs of the array-backed books\<close>

lemma foldl_invariant:
  assumes "P s" "\<And>s x. x \<in> set xs \<Longrightarrow> P s \<Longrightarrow> P (f s x)"
  shows "P (foldl f s xs)"
  using assms by (induction xs arbitrary: s) auto

lemma a_empty_invariants [simp]: "a_pos a_empty" "a_ordpos a_empty" "a_sum a_empty" "a_has a_empty"
  by (simp_all add: a_empty_def a_pos_def a_ordpos_def a_sum_def a_has_def)

lemma positive_volume_add: "positive_volume x \<Longrightarrow> positive_add x"
  by (cases x) simp_all

lemma a_consistent_step:
  assumes "positive_volume x" "a_ordpos A \<and> a_sum A \<and> a_has A"
  shows "a_ordpos (a_step A x) \<and> a_sum (a_step A x) \<and> a_has (a_step A x)"
proof (cases x)
  case (Add i sd pr vol)
  then show ?thesis using assms a_ordpos_step[OF assms(1), of A] a_consistent_add[of A i sd pr vol]
    by simp
next
  case (Modify i vol)
  then show ?thesis using assms a_ordpos_step[OF assms(1), of A] a_consistent_modify[of vol A i]
    by simp
next
  case (Delete i)
  then show ?thesis using assms a_ordpos_step[OF assms(1), of A] a_consistent_delete[of A i]
    by simp
qed

lemma a_run_pos:
  assumes "\<forall>x\<in>set ops. positive_add x"
  shows "a_pos (a_run ops)"
  unfolding a_run_def
  by (rule foldl_invariant) (use assms in \<open>auto intro: a_pos_step\<close>)

lemma a_run_consistent:
  assumes "\<forall>x\<in>set ops. positive_volume x"
  shows "a_ordpos (a_run ops) \<and> a_sum (a_run ops) \<and> a_has (a_run ops)"
  unfolding a_run_def
proof (rule foldl_invariant[where P="\<lambda>A. a_ordpos A \<and> a_sum A \<and> a_has A"])
  show "a_ordpos a_empty \<and> a_sum a_empty \<and> a_has a_empty" by simp
  show "a_ordpos (a_step s x) \<and> a_sum (a_step s x) \<and> a_has (a_step s x)"
    if "x \<in> set ops" "a_ordpos s \<and> a_sum s \<and> a_has s" for s x
    using that assms by (intro a_consistent_step) auto
qed

text \<open>Best prices of sorted arrays.\<close>

lemma hd_sorted_greater:
  assumes "sorted_levels (>) L" "L \<noteq> []"
  shows "price (hd L) = Max (price ` set L)"
proof -
  obtain x xs where L: "L = x # xs" using assms(2) by (cases L) auto
  have "\<forall>y\<in>set xs. price y < price x" using assms(1) L by (simp add: sorted_levels_Cons)
  then have "Max (price ` set L) = price x"
    unfolding L by (intro Max_eqI) (auto intro: less_imp_le)
  then show ?thesis by (simp add: L)
qed

lemma hd_sorted_less:
  assumes "sorted_levels (<) L" "L \<noteq> []"
  shows "price (hd L) = Min (price ` set L)"
proof -
  obtain x xs where L: "L = x # xs" using assms(2) by (cases L) auto
  have "\<forall>y\<in>set xs. price x < price y" using assms(1) L by (simp add: sorted_levels_Cons)
  then have "Min (price ` set L) = price x"
    unfolding L by (intro Min_eqI) (auto intro: less_imp_le)
  then show ?thesis by (simp add: L)
qed

lemma sorted_levels_rev: "sorted_levels cmp (rev L) \<longleftrightarrow> sorted_levels (\<lambda>a b. cmp b a) L"
  by (simp add: sorted_levels_def sorted_wrt_rev by_price_def[abs_def])

lemma last_sorted_less:
  assumes "sorted_levels (<) L" "L \<noteq> []"
  shows "price (last L) = Max (price ` set L)"
proof -
  have "sorted_levels (>) (rev L)" using assms(1) by (simp add: sorted_levels_rev)
  then have "price (hd (rev L)) = Max (price ` set (rev L))"
    using assms(2) by (intro hd_sorted_greater) simp_all
  then show ?thesis using assms(2) by (simp add: hd_rev)
qed

lemma last_sorted_greater:
  assumes "sorted_levels (>) L" "L \<noteq> []"
  shows "price (last L) = Min (price ` set L)"
proof -
  have "sorted_levels (<) (rev L)" using assms(1) by (simp add: sorted_levels_rev)
  then have "price (hd (rev L)) = Min (price ` set (rev L))"
    using assms(2) by (intro hd_sorted_less) simp_all
  then show ?thesis using assms(2) by (simp add: hd_rev)
qed

lemma GetBestPrices_front_sorted:
  assumes "sorted_book (>) (<) b" "mBidLevels b \<noteq> []" "mAskLevels b \<noteq> []"
  shows "GetBestPrices_front b = (Max (price ` set (mBidLevels b)), Min (price ` set (mAskLevels b)))"
  using assms by (simp add: GetBestPrices_front_def sorted_book_def hd_sorted_greater hd_sorted_less)

lemma GetBestPrices_back_sorted:
  assumes "sorted_book (<) (>) b" "mBidLevels b \<noteq> []" "mAskLevels b \<noteq> []"
  shows "GetBestPrices_back b = (Max (price ` set (mBidLevels b)), Min (price ` set (mAskLevels b)))"
  using assms by (simp add: GetBestPrices_back_def sorted_book_def last_sorted_less last_sorted_greater)

text \<open>From the abstraction back to the arrays.\<close>

lemma level_at_mem:
  assumes "distinct (map price L)" "l \<in> set L"
  shows "level_at L (price l) = Some (volume l)"
proof -
  obtain k where "k < length L" "L ! k = l" using assms(2) by (auto simp: in_set_conv_nth)
  then show ?thesis using level_at_nth[OF assms(1), of k] by simp
qed


lemma sorted_book_distinct:
  assumes "is_comparator bc" "is_comparator ac" "sorted_book bc ac b"
  shows "distinct (map price (levels_of b sd))"
  using sorted_book_side[OF assms, of sd] by (auto intro: sorted_levels_distinct)

section \<open>Sums that stay in range\<close>

lemma int64_id: "in_int64 v \<Longrightarrow> int64 v = v"
  by (simp add: int64_def in_int64_def)

lemma in_int64_abs: "\<bar>v\<bar> < 2 ^ 63 \<Longrightarrow> in_int64 v"
  unfolding in_int64_def by linarith

lemma max_volume_nonneg: "0 \<le> max_volume ops"
  by (induction ops) (simp_all add: max_volume_def)

lemma max_volume_ge: "x \<in> set ops \<Longrightarrow> \<bar>op_volume x\<bar> \<le> max_volume ops"
  by (induction ops) (auto simp: max_volume_def)

lemma a_bounded_empty [simp]: "a_bounded M 0 a_empty"
  by (simp add: a_bounded_def a_empty_def)

lemma a_bounded_step:
  assumes "a_bounded M k A" "\<bar>op_volume x\<bar> \<le> M"
  shows "a_bounded M (Suc k) (a_step A x)"
proof -
  define B where "B = 2 * M * int k"
  have B': "2 * M * int (Suc k) = B + 2 * M" by (simp add: B_def algebra_simps)
  have M: "0 \<le> M" using assms(2) by simp
  have B: "0 \<le> B" using M by (simp add: B_def)
  have lv: "\<And>sd p v. a_levels A sd p = Some v \<Longrightarrow> \<bar>v\<bar> \<le> B"
    using assms(1) by (simp add: a_bounded_def B_def)
  have od: "\<And>i d. a_orders A i = Some d \<Longrightarrow> \<bar>originalVolume d\<bar> \<le> M"
    using assms(1) by (simp add: a_bounded_def)
  show ?thesis
  proof (cases x)
    case (Add i sd pr vol)
    then have v: "\<bar>vol\<bar> \<le> M" using assms(2) by simp
    show ?thesis unfolding a_bounded_def B' Add a_step.simps a_add_def
      using v M B lv od
      by (auto split: option.splits if_splits dest!: lv od)
  next
    case (Modify i vol)
    then have v: "\<bar>vol\<bar> \<le> M" using assms(2) by simp
    show ?thesis unfolding a_bounded_def B' Modify a_step.simps a_modify_def
      using v M B
      by (auto split: option.splits if_splits dest!: lv od)
  next
    case (Delete i)
    show ?thesis unfolding a_bounded_def B' Delete a_step.simps a_delete_def
      using M B
      by (auto split: option.splits if_splits dest!: lv od)
  qed
qed

lemma w_step_eq:
  assumes "a_bounded M k A" "\<bar>op_volume x\<bar> \<le> M" "2 * M * int (Suc k) < 2 ^ 63"
  shows "w_step A x = a_step A x"
proof -
  define B where "B = 2 * M * int k"
  have B': "B + 2 * M < 2 ^ 63" using assms(3) by (simp add: B_def algebra_simps)
  have M: "0 \<le> M" using assms(2) by simp
  have B: "0 \<le> B" using M by (simp add: B_def)
  have lv: "\<And>sd p v. a_levels A sd p = Some v \<Longrightarrow> \<bar>v\<bar> \<le> B"
    using assms(1) by (simp add: a_bounded_def B_def)
  have od: "\<And>i d. a_orders A i = Some d \<Longrightarrow> \<bar>originalVolume d\<bar> \<le> M"
    using assms(1) by (simp add: a_bounded_def)
  have sum: "int64 (v + w) = v + w" if "\<bar>v\<bar> \<le> B" "\<bar>w\<bar> \<le> 2 * M" for v w
    using that B' by (intro int64_id in_int64_abs) linarith
  have diff: "int64 (v - w) = v - w" if "\<bar>v\<bar> \<le> M" "\<bar>w\<bar> \<le> M" for v w
    using that B' B by (intro int64_id in_int64_abs) linarith
  show ?thesis
  proof (cases x)
    case (Add i sd pr vol)
    then have v: "\<bar>vol\<bar> \<le> M" using assms(2) by simp
    have "int64 (y + vol) = y + vol" if "a_levels A sd pr = Some y" for y
      using sum[OF lv[OF that], of vol] v M by simp
    then show ?thesis unfolding Add w_step.simps a_step.simps w_add_def a_add_def
      by (simp split: option.splits)
  next
    case (Modify i vol)
    then have v: "\<bar>vol\<bar> \<le> M" using assms(2) by simp
    have "int64 (vol - originalVolume d) = vol - originalVolume d
        \<and> int64 (y + (vol - originalVolume d)) = y + (vol - originalVolume d)"
      if "a_orders A i = Some d" "a_levels A (oside d) (oprice d) = Some y" for d y
      using diff[OF v od[OF that(1)]] sum[OF lv[OF that(2)], of "vol - originalVolume d"] v od[OF that(1)]
      by simp
    then show ?thesis unfolding Modify w_step.simps a_step.simps w_modify_def a_modify_def
      by (simp split: option.splits)
  next
    case (Delete i)
    have "int64 (y - originalVolume d) = y - originalVolume d"
      if "a_orders A i = Some d" "a_levels A (oside d) (oprice d) = Some y" for d y
      using sum[OF lv[OF that(2)], of "- originalVolume d"] od[OF that(1)] M by simp
    then show ?thesis unfolding Delete w_step.simps a_step.simps w_delete_def a_delete_def
      by (simp split: option.splits)
  qed
qed

lemma steps_in_range:
  assumes "a_bounded M k A" "\<forall>x\<in>set xs. \<bar>op_volume x\<bar> \<le> M" "0 \<le> M"
    "2 * M * int (k + length xs) < 2 ^ 63"
  shows "foldl w_step A xs = foldl a_step A xs \<and> a_bounded M (k + length xs) (foldl a_step A xs)"
  using assms
proof (induction xs arbitrary: A k)
  case Nil
  then show ?case by simp
next
  case (Cons x xs)
  have x: "\<bar>op_volume x\<bar> \<le> M" using Cons.prems(2) by simp
  have "2 * M * int (Suc k) \<le> 2 * M * int (k + length (x # xs))"
    using Cons.prems(3) by (intro mult_left_mono) simp_all
  then have "w_step A x = a_step A x"
    using w_step_eq[OF Cons.prems(1) x] Cons.prems(4) by linarith
  moreover have "foldl w_step (a_step A x) xs = foldl a_step (a_step A x) xs
      \<and> a_bounded M (Suc k + length xs) (foldl a_step (a_step A x) xs)"
    using Cons.prems by (intro Cons.IH a_bounded_step[OF Cons.prems(1) x]) simp_all
  ultimately show ?case by simp
qed

lemma small_volumes_run:
  assumes "small_volumes ops"
  shows "w_run ops = a_run ops" "a_bounded (max_volume ops) (length ops) (a_run ops)"
  using steps_in_range[of "max_volume ops" 0 a_empty ops] assms
  by (simp_all add: small_volumes_def max_volume_ge max_volume_nonneg w_run_def a_run_def)


lemma bounded_modify_in_range:
  assumes "a_bounded M k A" "2 * M * int (Suc k) < 2 ^ 63"
    and "a_orders A i = Some d" "a_levels A (oside d) (oprice d) = Some y" "\<bar>vol\<bar> \<le> M"
  shows "int64 (vol - originalVolume d) = vol - originalVolume d
       \<and> int64 (y + (vol - originalVolume d)) = y + (vol - originalVolume d)"
proof -
  have y: "\<bar>y\<bar> \<le> 2 * M * int k" and d: "\<bar>originalVolume d\<bar> \<le> M"
    using assms(1,3,4) unfolding a_bounded_def by blast+
  have "2 * M * int k + 2 * M < 2 ^ 63" using assms(2) by (simp add: algebra_simps)
  then have "in_int64 (vol - originalVolume d)" "in_int64 (y + (vol - originalVolume d))"
    using y d assms(5) by (auto intro!: in_int64_abs)
  then show ?thesis by (simp add: int64_id)
qed

lemma max_volume_append: "max_volume (xs @ ys) = max (max_volume xs) (max_volume ys)"
  by (induction xs) (simp_all add: max_volume_def max_volume_nonneg[unfolded max_volume_def])

lemma small_volumes_prefix:
  assumes "small_volumes (xs @ ys)"
  shows "small_volumes xs"
proof -
  have "2 * max_volume xs * int (length xs) \<le> 2 * max_volume (xs @ ys) * int (length (xs @ ys))"
    by (intro mult_mono) (auto simp: max_volume_append max_volume_nonneg le_max_iff_disj)
  then show ?thesis using assms unfolding small_volumes_def by linarith
qed

lemma a_run_snoc: "a_run (ops @ [x]) = a_step (a_run ops) x"
  by (simp add: a_run_def)

text \<open>
  With small volumes, each array-backed book after a further \<^verbatim>\<open>ModifyOrder\<close> is the
  abstraction's \<open>a_modify\<close> of the book before it.
\<close>

lemma small_modify_views:
  assumes "small_volumes (ops @ [Modify i nv])"
  shows "w_run ops = a_run ops" and "w_run (ops @ [Modify i nv]) = a_modify (a_run ops) i nv"
  using small_volumes_run(1)[OF assms] small_volumes_run(1)[OF small_volumes_prefix[OF assms]]
  by (simp_all add: a_run_snoc)
section \<open>The tree book and its abstraction\<close>

lemma deref_Some:
  "deref L it = Some n \<Longrightarrow> n \<in> set L \<and> it = Some (node n)"
  by (cases it) (auto simp: deref_def find_Some_iff in_set_conv_nth)

lemma deref_None_iff:
  "deref L (Some h) = None \<longleftrightarrow> h \<notin> node ` set L"
  by (auto simp: deref_def find_None_iff)

lemma deref_mem:
  "h \<in> node ` set L \<Longrightarrow> \<exists>n. deref L (Some h) = Some n"
  using deref_None_iff[of L h] by (cases "deref L (Some h)") auto

lemma distinct_map_Cons_neq: "distinct (map f (x # xs)) \<Longrightarrow> y \<in> set xs \<Longrightarrow> f y \<noteq> f x"
  by (auto simp: image_iff)

lemma same_node:
  "distinct (map node L) \<Longrightarrow> n \<in> set L \<Longrightarrow> n' \<in> set L \<Longrightarrow> node n = node n' \<Longrightarrow> n = n'"
  by (meson distinct_map inj_onD)

lemma map_first_add_second [simp]: "map first (add_second L h d) = map first L"
  by (induction L) (simp_all add: add_second_def)

lemma map_node_add_second [simp]: "map node (add_second L h d) = map node L"
  by (induction L) (simp_all add: add_second_def)

lemma node_level_simps [simp]:
  "price (node_level n) = first n" "volume (node_level n) = second n"
  "price \<circ> node_level = first"
  by (auto simp: node_level_def)

lemma sorted_add_second:
  "sorted_levels cmp (map node_level L) \<Longrightarrow> sorted_levels cmp (map node_level (add_second L h d))"
  by (simp add: sorted_levels_map)

lemma sorted_erase_node:
  "sorted_levels cmp (map node_level L) \<Longrightarrow> sorted_levels cmp (map node_level (erase_node L h))"
  by (simp add: sorted_levels_map erase_node_def sorted_wrt_map sorted_wrt_filter)

lemma erase_add_second [simp]: "erase_node (add_second L h d) h = erase_node L h"
  by (induction L) (simp_all add: add_second_def erase_node_def)

lemma set_erase_node [simp]: "set (erase_node L h) = {n \<in> set L. node n \<noteq> h}"
  by (simp add: erase_node_def)

lemma distinct_erase_node: "distinct (map node L) \<Longrightarrow> distinct (map node (erase_node L h))"
  by (simp add: erase_node_def distinct_map_filter)

lemma add_second_absent: "h \<notin> node ` set L \<Longrightarrow> add_second L h d = L"
  by (induction L) (auto simp: add_second_def)

lemma erase_node_absent: "h \<notin> node ` set L \<Longrightarrow> erase_node L h = L"
  by (induction L) (auto simp: erase_node_def)

lemma level_at_node_Cons:
  "level_at (map node_level (x # xs)) = (level_at (map node_level xs))(first x \<mapsto> second x)"
  by (simp add: level_at_Cons node_level_def)

lemma level_at_add_second:
  assumes "distinct (map node L)" "distinct (map first L)" "n \<in> set L"
  shows "level_at (map node_level (add_second L (node n) d)) =
         (level_at (map node_level L))(first n \<mapsto> int64 (second n + d))"
  using assms
proof (induction L)
  case Nil
  then show ?case by simp
next
  case (Cons x xs)
  show ?case
  proof (cases "node x = node n")
    case True
    then have xn: "x = n" using Cons.prems same_node[of "x # xs" x n] by simp
    then have "node n \<notin> node ` set xs" using Cons.prems(1) by auto
    then have "add_second xs (node n) d = xs" by (rule add_second_absent)
    then have "add_second (x # xs) (node n) d = n\<lparr>second := int64 (second n + d)\<rparr> # xs"
      using xn by (simp add: add_second_def)
    then show ?thesis using xn by (auto simp: level_at_Cons intro!: ext)
  next
    case False
    then have nin: "n \<in> set xs" using Cons.prems(3) by auto
    then have "first n \<noteq> first x" by (rule distinct_map_Cons_neq[OF Cons.prems(2)])
    moreover have "add_second (x # xs) (node n) d = x # add_second xs (node n) d"
      using False by (simp add: add_second_def)
    ultimately show ?thesis using Cons nin
      by (auto simp: level_at_Cons intro!: ext)
  qed
qed

lemma level_at_erase_node:
  assumes "distinct (map node L)" "distinct (map first L)" "n \<in> set L"
  shows "level_at (map node_level (erase_node L (node n))) =
         (level_at (map node_level L))(first n := None)"
  using assms
proof (induction L)
  case Nil
  then show ?case by simp
next
  case (Cons x xs)
  show ?case
  proof (cases "node x = node n")
    case True
    then have xn: "x = n" using Cons.prems same_node[of "x # xs" x n] by simp
    then have "node n \<notin> node ` set xs" using Cons.prems(1) by auto
    then have "erase_node xs (node n) = xs" by (rule erase_node_absent)
    then have e: "erase_node (x # xs) (node n) = xs" using xn by (simp add: erase_node_def)
    have "level_at (map node_level xs) (first n) = None"
      using Cons.prems(2) xn by (simp add: level_at_None_iff image_image)
    then show ?thesis using xn e by (auto simp: level_at_Cons intro!: ext)
  next
    case False
    then have nin: "n \<in> set xs" using Cons.prems(3) by auto
    then have "first n \<noteq> first x" by (rule distinct_map_Cons_neq[OF Cons.prems(2)])
    moreover have "erase_node (x # xs) (node n) = x # erase_node xs (node n)"
      using False by (simp add: erase_node_def)
    ultimately show ?thesis using Cons nin
      by (auto simp: level_at_Cons intro!: ext)
  qed
qed

lemma level_at_node_mem:
  assumes "distinct (map first L)" "n \<in> set L"
  shows "level_at (map node_level L) (first n) = Some (second n)"
proof -
  have "node_level n \<in> set (map node_level L)" using assms(2) by simp
  then have "level_at (map node_level L) (price (node_level n)) = Some (volume (node_level n))"
    using assms(1) by (intro level_at_mem) simp_all
  then show ?thesis by (simp add: node_level_def)
qed

lemma side_cmp_comparator [simp]: "is_comparator (side_cmp sd)"
  by (simp add: side_cmp_def)

lemma nodes_of_simps [simp]:
  "nodes_of m Bid = mBidLevelsMap m" "nodes_of m Ask = mAskLevelsMap m"
  "nodes_of (set_nodes m sd L) sd' = (if sd' = sd then L else nodes_of m sd')"
  "nodes_of (m\<lparr>mOrdersMap := os\<rparr>) sd = nodes_of m sd"
  "nodes_of (m\<lparr>mAllocated := a\<rparr>) sd = nodes_of m sd"
  "mOrdersMap (set_nodes m sd L) = mOrdersMap m"
  "mAllocated (set_nodes m sd L) = mAllocated m"
  by (cases sd; cases sd'; simp add: nodes_of_def set_nodes_def)+

lemma map_node_level_insert_at:
  "map node_level (insert_at L pos nd) = insert_at (map node_level L) pos (node_level nd)"
  by (simp add: insert_at_def take_map drop_map)

lemma find_if_nodes:
  "find_if L (\<lambda>n. \<not> cmp (first n) k) = insertion_point cmp (map node_level L) k"
proof -
  have "(\<lambda>l. cmp (price l) k) \<circ> node_level = (\<lambda>n. cmp (first n) k)" by (auto simp: fun_eq_iff)
  then show ?thesis by (simp add: find_if_takeWhile insertion_point_def takeWhile_map)
qed

lemma emplace_found_iff:
  assumes "is_comparator cmp" "sorted_levels cmp (map node_level L)"
  shows "(insertion_point cmp (map node_level L) k \<noteq> length L \<and>
          \<not> cmp k (first (L ! insertion_point cmp (map node_level L) k)))
         \<longleftrightarrow> k \<in> first ` set L"
proof -
  let ?pos = "insertion_point cmp (map node_level L) k"
  have le: "?pos \<le> length L" using insertion_point_le[of cmp "map node_level L" k] by simp
  have f: "(?pos \<noteq> length L \<and> first (L ! ?pos) = k) \<longleftrightarrow> k \<in> first ` set L"
    using insertion_point_found_iff[OF assms, of k] le
    by (auto simp: image_image)
  have "\<not> cmp (first (L ! ?pos)) k" if "?pos \<noteq> length L"
  proof -
    have lt: "?pos < length (map node_level L)" using that le by simp
    have "\<not> cmp (price (map node_level L ! ?pos)) k"
      using nth_length_takeWhile[of "\<lambda>l. cmp (price l) k" "map node_level L"] lt
      by (simp add: insertion_point_def)
    then show ?thesis using lt by simp
  qed
  then have "(?pos \<noteq> length L \<and> \<not> cmp k (first (L ! ?pos))) \<longleftrightarrow> (?pos \<noteq> length L \<and> first (L ! ?pos) = k)"
    using assms(1) is_comparator_total[OF assms(1)] is_comparator_irrefl[OF assms(1)] by metis
  then show ?thesis using f by simp
qed

lemma try_emplace_found:
  assumes "is_comparator cmp" "sorted_levels cmp (map node_level L)" "k \<in> first ` set L"
  shows "\<exists>n. n \<in> set L \<and> first n = k \<and> try_emplace L cmp fresh k v = (L, node n, False)"
proof -
  let ?pos = "insertion_point cmp (map node_level L) k"
  have f: "?pos \<noteq> length L \<and> \<not> cmp k (first (L ! ?pos))"
    using emplace_found_iff[OF assms(1,2), of k] assms(3) by simp
  have le: "?pos \<le> length L" using insertion_point_le[of cmp "map node_level L" k] by simp
  have lt: "?pos < length L" using f le by simp
  have "?pos \<noteq> length (map node_level L) \<and> price (map node_level L ! ?pos) = k"
    using insertion_point_found_iff[OF assms(1,2), of k] assms(3) by (simp add: image_image)
  then have k: "first (L ! ?pos) = k" using lt by simp
  have "try_emplace L cmp fresh k v = (L, node (L ! ?pos), False)"
    using f by (simp add: try_emplace_def find_if_nodes)
  then show ?thesis using lt k nth_mem[OF lt] by blast
qed

lemma try_emplace_fresh:
  assumes "is_comparator cmp" "sorted_levels cmp (map node_level L)" "k \<notin> first ` set L"
  shows "try_emplace L cmp fresh k v =
         (insert_at L (insertion_point cmp (map node_level L) k) \<lparr>node = fresh, first = k, second = v\<rparr>, fresh, True)"
proof -
  let ?pos = "insertion_point cmp (map node_level L) k"
  have "\<not> (?pos \<noteq> length L \<and> \<not> cmp k (first (L ! ?pos)))"
    using emplace_found_iff[OF assms(1,2), of k] assms(3) by simp
  then show ?thesis by (auto simp: try_emplace_def find_if_nodes)
qed

lemma Map_AddOrder_nf:
  assumes "mOrdersMap m i = None"
  shows "OrderBookMap_AddOrder m i sd pr vol =
     (case try_emplace (nodes_of m sd) (side_cmp sd) (mAllocated m) pr vol of
        (L, it, inserted) \<Rightarrow>
          (set_nodes m sd (if \<not> inserted then add_second L it vol else L))
            \<lparr>mOrdersMap := (mOrdersMap m)(i \<mapsto> new_details sd pr vol it),
             mAllocated := (if inserted then Suc (mAllocated m) else mAllocated m)\<rparr>)"
  using assms
  by (cases sd) (simp_all add: OrderBookMap_AddOrder_def side_cmp_def set_nodes_def new_details_def
      split: prod.splits)

lemma Map_AddOrder_found:
  assumes "sorted_levels (side_cmp sd) (map node_level (nodes_of m sd))" "mOrdersMap m i = None"
    and "pr \<in> first ` set (nodes_of m sd)"
  shows "\<exists>n. n \<in> set (nodes_of m sd) \<and> first n = pr \<and>
           OrderBookMap_AddOrder m i sd pr vol =
           (set_nodes m sd (add_second (nodes_of m sd) (node n) vol))
             \<lparr>mOrdersMap := (mOrdersMap m)(i \<mapsto> new_details sd pr vol (node n))\<rparr>"
proof -
  obtain n where n: "n \<in> set (nodes_of m sd)" "first n = pr"
    "try_emplace (nodes_of m sd) (side_cmp sd) (mAllocated m) pr vol = (nodes_of m sd, node n, False)"
    using try_emplace_found[OF side_cmp_comparator assms(1,3)] by blast
  have "OrderBookMap_AddOrder m i sd pr vol =
           (set_nodes m sd (add_second (nodes_of m sd) (node n) vol))
             \<lparr>mOrdersMap := (mOrdersMap m)(i \<mapsto> new_details sd pr vol (node n))\<rparr>"
    by (simp add: Map_AddOrder_nf[OF assms(2)] n(3))
  then show ?thesis using n(1,2) by blast
qed

lemma Map_AddOrder_fresh:
  assumes "sorted_levels (side_cmp sd) (map node_level (nodes_of m sd))" "mOrdersMap m i = None"
    and "pr \<notin> first ` set (nodes_of m sd)"
  shows "OrderBookMap_AddOrder m i sd pr vol =
           (set_nodes m sd (insert_at (nodes_of m sd)
                (insertion_point (side_cmp sd) (map node_level (nodes_of m sd)) pr)
                \<lparr>node = mAllocated m, first = pr, second = vol\<rparr>))
             \<lparr>mOrdersMap := (mOrdersMap m)(i \<mapsto> new_details sd pr vol (mAllocated m)),
              mAllocated := Suc (mAllocated m)\<rparr>"
  by (simp add: Map_AddOrder_nf[OF assms(2)] try_emplace_fresh[OF side_cmp_comparator assms(1,3)])

lemma Map_ModifyOrder_nf:
  assumes "mOrdersMap m i = Some d"
  shows "OrderBookMap_ModifyOrder m i newVolume =
     (case deref (nodes_of m (oside d)) (it_of d) of
        None \<Rightarrow> None
      | Some n \<Rightarrow>
          if int64 (second n + int64 (newVolume - originalVolume d)) \<le> 0
          then Some ((set_nodes m (oside d) (erase_node (nodes_of m (oside d)) (node n)))
                       \<lparr>mOrdersMap := (mOrdersMap m)(i := None)\<rparr>)
          else Some ((set_nodes m (oside d)
                        (add_second (nodes_of m (oside d)) (node n) (int64 (newVolume - originalVolume d))))
                       \<lparr>mOrdersMap := (mOrdersMap m)(i \<mapsto> d\<lparr>originalVolume := newVolume\<rparr>)\<rparr>))"
  using assms
  by (cases "oside d")
     (simp_all add: OrderBookMap_ModifyOrder_def it_of_def set_nodes_def Let_def split: option.splits)

lemma Map_DeleteOrder_nf:
  assumes "mOrdersMap m i = Some d"
  shows "OrderBookMap_DeleteOrder m i =
     (case deref (nodes_of m (oside d)) (it_of d) of
        None \<Rightarrow> None
      | Some n \<Rightarrow>
          Some ((set_nodes m (oside d)
                  (if int64 (second n - originalVolume d) \<le> 0
                   then erase_node (nodes_of m (oside d)) (node n)
                   else add_second (nodes_of m (oside d)) (node n) (- originalVolume d)))
                 \<lparr>mOrdersMap := (mOrdersMap m)(i := None)\<rparr>))"
  using assms
  by (cases "oside d")
     (simp_all add: OrderBookMap_DeleteOrder_def it_of_def set_nodes_def Let_def split: option.splits)

lemma keys_of_add_second [simp]: "keys_of (add_second L h d) = keys_of L"
proof -
  have "map (\<lambda>n. (node n, first n)) (add_second L h d) = map (\<lambda>n. (node n, first n)) L"
    by (induction L) (simp_all add: add_second_def)
  then have "set (map (\<lambda>n. (node n, first n)) (add_second L h d)) = set (map (\<lambda>n. (node n, first n)) L)"
    by simp
  then show ?thesis by (simp add: keys_of_def)
qed

lemma keys_of_erase_node: "keys_of (erase_node L h) = {x \<in> keys_of L. fst x \<noteq> h}"
  unfolding keys_of_def set_erase_node by (simp add: set_eq_iff image_iff) blast

lemma keys_of_insert_at: "keys_of (insert_at L pos nd) = insert (node nd, first nd) (keys_of L)"
  by (simp add: keys_of_def set_insert_at)

lemma keys_of_node: "node ` set L = fst ` keys_of L"
  by (simp add: keys_of_def image_image)

lemma keys_of_mem: "n \<in> set L \<Longrightarrow> (node n, first n) \<in> keys_of L"
  by (simp add: keys_of_def)

lemma keys_of_unique:
  assumes "distinct (map node L)" "(h, k) \<in> keys_of L" "(h, k') \<in> keys_of L"
  shows "k = k'"
proof -
  obtain n where n: "n \<in> set L" "node n = h" "first n = k"
    using assms(2) unfolding keys_of_def by (simp add: image_iff) blast
  obtain n' where n': "n' \<in> set L" "node n' = h" "first n' = k'"
    using assms(3) unfolding keys_of_def by (simp add: image_iff) blast
  have "n = n'" using same_node[OF assms(1) n(1) n'(1)] n(2) n'(2) by simp
  then show ?thesis using n(3) n'(3) by simp
qed

lemma points_to_keys:
  "(\<forall>n\<in>set L. node n = h \<longrightarrow> first n = p) \<longleftrightarrow> (\<forall>k. (h, k) \<in> keys_of L \<longrightarrow> k = p)"
  unfolding keys_of_def by (simp add: image_iff) blast

lemma bounded_keys:
  "(\<forall>n\<in>set L. node n < a) \<longleftrightarrow> (\<forall>x\<in>keys_of L. fst x < a)"
  unfolding keys_of_def by simp

lemma distinct_map_middle:
  "distinct (map f (A @ x # B)) \<longleftrightarrow> distinct (map f (A @ B)) \<and> f x \<notin> f ` set (A @ B)"
  by auto

lemma distinct_insert_at:
  "distinct (map f (insert_at L pos x)) \<longleftrightarrow> distinct (map f L) \<and> f x \<notin> f ` set L"
  unfolding insert_at_def distinct_map_middle by (simp only: append_take_drop_id)

text \<open>The invariant in terms of keys.\<close>

lemma map_inv_keys:
  "map_inv m \<longleftrightarrow>
     ((\<forall>sd. sorted_levels (side_cmp sd) (map node_level (nodes_of m sd))
          \<and> distinct (map node (nodes_of m sd))
          \<and> (\<forall>x\<in>keys_of (nodes_of m sd). fst x < mAllocated m))
    \<and> (\<forall>i d. mOrdersMap m i = Some d \<longrightarrow>
          (\<exists>h. it_of d = Some h \<and> h < mAllocated m
             \<and> (\<forall>k. (h, k) \<in> keys_of (nodes_of m (oside d)) \<longrightarrow> k = oprice d))))"
  unfolding map_inv_def points_to_keys bounded_keys ..

lemma map_valid_keys:
  "map_valid m \<longleftrightarrow>
     (\<forall>i d. mOrdersMap m i = Some d \<longrightarrow>
        (\<exists>h. it_of d = Some h \<and> h \<in> fst ` keys_of (nodes_of m (oside d))))"
  unfolding map_valid_def keys_of_node ..

lemma view_Map_sel [simp]:
  "a_levels (view_Map m) sd = level_at (map node_level (nodes_of m sd))"
  "a_orders (view_Map m) i = map_option strip (mOrdersMap m i)"
  by (simp_all add: view_Map_def)

lemma view_Map_update:
  "view_Map ((set_nodes m sd L)\<lparr>mOrdersMap := os\<rparr>) =
   \<lparr>a_levels = (a_levels (view_Map m))(sd := level_at (map node_level L)),
    a_orders = (\<lambda>i. map_option strip (os i))\<rparr>"
  "view_Map ((set_nodes m sd L)\<lparr>mOrdersMap := os, mAllocated := a\<rparr>) =
   \<lparr>a_levels = (a_levels (view_Map m))(sd := level_at (map node_level L)),
    a_orders = (\<lambda>i. map_option strip (os i))\<rparr>"
  by (auto simp: view_Map_def fun_eq_iff)

lemma it_of_simps [simp]:
  "it_of (new_details sd pr vol h) = Some h"
  "it_of (d\<lparr>originalVolume := v\<rparr>) = it_of d"
  "oside (new_details sd pr vol h) = sd" "oprice (new_details sd pr vol h) = pr"
  "originalVolume (new_details sd pr vol h) = vol"
  "strip (new_details sd pr vol h) = \<lparr>oside = sd, oprice = pr, originalVolume = vol\<rparr>"
  "strip (d\<lparr>originalVolume := v\<rparr>) = (strip d)\<lparr>originalVolume := v\<rparr>"
  "oside (strip d) = oside d" "oprice (strip d) = oprice d" "originalVolume (strip d) = originalVolume d"
  by (simp_all add: it_of_def new_details_def strip_def)

lemma view_Map_eqI:
  assumes "\<And>sd. level_at (map node_level (nodes_of m' sd)) = a_levels A sd"
    and "\<And>j. map_option strip (mOrdersMap m' j) = a_orders A j"
  shows "view_Map m' = A"
proof -
  have "(\<lambda>sd. level_at (map node_level (nodes_of m' sd))) = a_levels A" by (rule ext) (rule assms(1))
  moreover have "(\<lambda>j. map_option strip (mOrdersMap m' j)) = a_orders A" by (rule ext) (rule assms(2))
  ultimately show ?thesis by (simp add: view_Map_def)
qed

lemma map_inv_sorted: "map_inv m \<Longrightarrow> sorted_levels (side_cmp sd) (map node_level (nodes_of m sd))"
  and map_inv_distinct: "map_inv m \<Longrightarrow> distinct (map node (nodes_of m sd))"
  and map_inv_bound: "map_inv m \<Longrightarrow> x \<in> keys_of (nodes_of m sd) \<Longrightarrow> fst x < mAllocated m"
  unfolding map_inv_keys by blast+

lemma map_inv_order:
  assumes "map_inv m" "mOrdersMap m i = Some d"
  obtains h where "it_of d = Some h" "h < mAllocated m"
    "\<And>k. (h, k) \<in> keys_of (nodes_of m (oside d)) \<Longrightarrow> k = oprice d"
  using assms unfolding map_inv_keys by blast

lemma map_inv_distinct_first: "map_inv m \<Longrightarrow> distinct (map first (nodes_of m sd))"
  using map_inv_sorted[of m sd] sorted_levels_distinct[OF side_cmp_comparator, of sd "map node_level (nodes_of m sd)"]
  by simp

text \<open>
  A book whose maps and registry are obtained from those of a book that satisfies
  the invariant satisfies it again, when the changed map is sorted with distinct,
  allocated nodes, old nodes keep their keys, and every order either is an old one
  or points into the changed map correctly.
\<close>

lemma map_inv_update:
  assumes inv: "map_inv m"
    and other: "\<And>sd'. sd' \<noteq> sd \<Longrightarrow> nodes_of m' sd' = nodes_of m sd'"
    and srt: "sorted_levels (side_cmp sd) (map node_level (nodes_of m' sd))"
    and dst: "distinct (map node (nodes_of m' sd))"
    and bnd: "\<And>x. x \<in> keys_of (nodes_of m' sd) \<Longrightarrow> fst x < mAllocated m'"
    and alloc: "mAllocated m \<le> mAllocated m'"
    and keys: "\<And>h k. h < mAllocated m \<Longrightarrow> (h, k) \<in> keys_of (nodes_of m' sd) \<Longrightarrow>
                 (h, k) \<in> keys_of (nodes_of m sd)"
    and ords: "\<And>j d. mOrdersMap m' j = Some d \<Longrightarrow>
                 (\<exists>d0. mOrdersMap m j = Some d0 \<and> it_of d0 = it_of d \<and> oside d0 = oside d \<and> oprice d0 = oprice d)
               \<or> (\<exists>h. it_of d = Some h \<and> h < mAllocated m' \<and> oside d = sd
                     \<and> (\<forall>k. (h, k) \<in> keys_of (nodes_of m' sd) \<longrightarrow> k = oprice d))"
  shows "map_inv m'"
  unfolding map_inv_keys
proof (intro conjI allI impI ballI)
  fix sd'
  show "sorted_levels (side_cmp sd') (map node_level (nodes_of m' sd'))"
    using srt other[of sd'] map_inv_sorted[OF inv, of sd'] by (cases "sd' = sd") simp_all
  show "distinct (map node (nodes_of m' sd'))"
    using dst other[of sd'] map_inv_distinct[OF inv, of sd'] by (cases "sd' = sd") simp_all
  fix x assume x: "x \<in> keys_of (nodes_of m' sd')"
  show "fst x < mAllocated m'"
  proof (cases "sd' = sd")
    case True
    then show ?thesis using bnd x by simp
  next
    case False
    then have "fst x < mAllocated m" using x other[of sd'] map_inv_bound[OF inv, of x sd'] by simp
    then show ?thesis using alloc by simp
  qed
next
  fix j d assume jd: "mOrdersMap m' j = Some d"
  from ords[OF jd] show "\<exists>h. it_of d = Some h \<and> h < mAllocated m' \<and>
            (\<forall>k. (h, k) \<in> keys_of (nodes_of m' (oside d)) \<longrightarrow> k = oprice d)"
  proof
    assume "\<exists>d0. mOrdersMap m j = Some d0 \<and> it_of d0 = it_of d \<and> oside d0 = oside d \<and> oprice d0 = oprice d"
    then obtain d0 where d0: "mOrdersMap m j = Some d0" "it_of d0 = it_of d" "oside d0 = oside d"
      "oprice d0 = oprice d" by blast
    obtain h where h: "it_of d0 = Some h" "h < mAllocated m"
      "\<And>k. (h, k) \<in> keys_of (nodes_of m (oside d0)) \<Longrightarrow> k = oprice d0"
      using map_inv_order[OF inv d0(1)] by blast
    have "k = oprice d" if "(h, k) \<in> keys_of (nodes_of m' (oside d))" for k
    proof (cases "oside d = sd")
      case True
      then have "(h, k) \<in> keys_of (nodes_of m sd)" using keys[OF h(2)] that by simp
      then show ?thesis using h(3)[of k] d0(3,4) True by simp
    next
      case False
      then have "(h, k) \<in> keys_of (nodes_of m (oside d))" using other[of "oside d"] that by simp
      then show ?thesis using h(3)[of k] d0(3,4) by simp
    qed
    then show ?thesis using h(1,2) d0(2) alloc by (intro exI[of _ h]) simp
  next
    assume "\<exists>h. it_of d = Some h \<and> h < mAllocated m' \<and> oside d = sd
                     \<and> (\<forall>k. (h, k) \<in> keys_of (nodes_of m' sd) \<longrightarrow> k = oprice d)"
    then show ?thesis by blast
  qed
qed

lemma map_valid_order:
  assumes "map_valid m" "mOrdersMap m i = Some d"
  obtains h where "it_of d = Some h" "h \<in> fst ` keys_of (nodes_of m (oside d))"
  using assms unfolding map_valid_keys by blast

lemma Map_Add_found:
  assumes inv: "map_inv m" and none: "mOrdersMap m i = None"
    and n: "n \<in> set (nodes_of m sd)" "first n = pr"
    and m': "m' = (set_nodes m sd (add_second (nodes_of m sd) (node n) vol))
                    \<lparr>mOrdersMap := (mOrdersMap m)(i \<mapsto> new_details sd pr vol (node n))\<rparr>"
  shows "map_inv m'" and "view_Map m' = w_add (view_Map m) i sd pr vol"
    and "map_valid m \<Longrightarrow> map_valid m'"
proof -
  let ?L = "nodes_of m sd"
  have nodes': "nodes_of m' sd' = (if sd' = sd then add_second ?L (node n) vol else nodes_of m sd')" for sd'
    by (simp add: m')
  have ords': "mOrdersMap m' = (mOrdersMap m)(i \<mapsto> new_details sd pr vol (node n))"
    and alloc': "mAllocated m' = mAllocated m"
    by (simp_all add: m')
  have nk: "(node n, pr) \<in> keys_of ?L" using keys_of_mem[OF n(1)] n(2) by simp
  have nlt: "node n < mAllocated m" using map_inv_bound[OF inv nk] by simp
  show "map_inv m'"
  proof (rule map_inv_update[OF inv, of sd])
    show "nodes_of m' sd' = nodes_of m sd'" if "sd' \<noteq> sd" for sd' using that nodes' by simp
    show "sorted_levels (side_cmp sd) (map node_level (nodes_of m' sd))"
      using map_inv_sorted[OF inv, of sd] by (simp add: nodes' sorted_add_second)
    show "distinct (map node (nodes_of m' sd))"
      using map_inv_distinct[OF inv, of sd] by (simp add: nodes')
    show "fst x < mAllocated m'" if "x \<in> keys_of (nodes_of m' sd)" for x
      using that map_inv_bound[OF inv, of x sd] by (simp add: nodes' alloc')
    show "mAllocated m \<le> mAllocated m'" by (simp add: alloc')
    show "(h, k) \<in> keys_of (nodes_of m sd)" if "(h, k) \<in> keys_of (nodes_of m' sd)" for h k
      using that by (simp add: nodes')
  next
    fix j d assume jd: "mOrdersMap m' j = Some d"
    show "(\<exists>d0. mOrdersMap m j = Some d0 \<and> it_of d0 = it_of d \<and> oside d0 = oside d \<and> oprice d0 = oprice d)
        \<or> (\<exists>h. it_of d = Some h \<and> h < mAllocated m' \<and> oside d = sd
              \<and> (\<forall>k. (h, k) \<in> keys_of (nodes_of m' sd) \<longrightarrow> k = oprice d))"
    proof (cases "j = i")
      case True
      then have d: "d = new_details sd pr vol (node n)" using jd ords' by simp
      have "k = pr" if "(node n, k) \<in> keys_of (nodes_of m' sd)" for k
        using that keys_of_unique[OF map_inv_distinct[OF inv, of sd] _ nk, of k] by (simp add: nodes')
      then show ?thesis using d nlt alloc' by (intro disjI2 exI[of _ "node n"]) simp
    next
      case False
      then have "mOrdersMap m j = Some d" using jd ords' by simp
      then show ?thesis by blast
    qed
  qed
  have lv: "level_at (map node_level ?L) pr = Some (second n)"
    using level_at_node_mem[OF map_inv_distinct_first[OF inv, of sd] n(1)] n(2) by simp
  show "view_Map m' = w_add (view_Map m) i sd pr vol"
  proof (rule view_Map_eqI)
    fix sd'
    have "level_at (map node_level (add_second ?L (node n) vol))
          = (level_at (map node_level ?L))(pr \<mapsto> int64 (second n + vol))"
      using level_at_add_second[OF map_inv_distinct[OF inv, of sd] map_inv_distinct_first[OF inv, of sd] n(1), of vol]
        n(2) by simp
    then show "level_at (map node_level (nodes_of m' sd')) = a_levels (w_add (view_Map m) i sd pr vol) sd'"
      using none lv by (simp add: nodes' w_add_def)
  next
    fix j
    show "map_option strip (mOrdersMap m' j) = a_orders (w_add (view_Map m) i sd pr vol) j"
      using none by (simp add: ords' w_add_def)
  qed
  show "map_valid m'" if v: "map_valid m"
    unfolding map_valid_keys
  proof (intro allI impI)
    fix j d assume jd: "mOrdersMap m' j = Some d"
    show "\<exists>h. it_of d = Some h \<and> h \<in> fst ` keys_of (nodes_of m' (oside d))"
    proof (cases "j = i")
      case True
      then have d: "d = new_details sd pr vol (node n)" using jd ords' by simp
      have "node n \<in> fst ` keys_of (nodes_of m' sd)" using nk by (force simp: nodes')
      then show ?thesis using d by (intro exI[of _ "node n"]) simp
    next
      case False
      then have old: "mOrdersMap m j = Some d" using jd ords' by simp
      obtain h where h: "it_of d = Some h" "h \<in> fst ` keys_of (nodes_of m (oside d))"
        using map_valid_order[OF v old] by blast
      have "keys_of (nodes_of m' (oside d)) = keys_of (nodes_of m (oside d))" by (simp add: nodes')
      then show ?thesis using h by (intro exI[of _ h]) simp
    qed
  qed
qed

lemma Map_Add_fresh:
  assumes inv: "map_inv m" and none: "mOrdersMap m i = None"
    and fresh: "pr \<notin> first ` set (nodes_of m sd)"
    and m': "m' = (set_nodes m sd (insert_at (nodes_of m sd)
                (insertion_point (side_cmp sd) (map node_level (nodes_of m sd)) pr)
                \<lparr>node = mAllocated m, first = pr, second = vol\<rparr>))
             \<lparr>mOrdersMap := (mOrdersMap m)(i \<mapsto> new_details sd pr vol (mAllocated m)),
              mAllocated := Suc (mAllocated m)\<rparr>"
  shows "map_inv m'" and "view_Map m' = w_add (view_Map m) i sd pr vol"
    and "map_valid m \<Longrightarrow> map_valid m'"
proof -
  let ?L = "nodes_of m sd"
  let ?pos = "insertion_point (side_cmp sd) (map node_level ?L) pr"
  let ?nd = "\<lparr>node = mAllocated m, first = pr, second = vol\<rparr>"
  have nodes': "nodes_of m' sd' = (if sd' = sd then insert_at ?L ?pos ?nd else nodes_of m sd')" for sd'
    by (simp add: m')
  have ords': "mOrdersMap m' = (mOrdersMap m)(i \<mapsto> new_details sd pr vol (mAllocated m))"
    and alloc': "mAllocated m' = Suc (mAllocated m)"
    by (simp_all add: m')
  have keys': "keys_of (nodes_of m' sd) = insert (mAllocated m, pr) (keys_of ?L)"
    by (simp add: nodes' keys_of_insert_at)
  have notin: "mAllocated m \<notin> fst ` keys_of ?L"
    using map_inv_bound[OF inv, of _ sd] by fastforce
  have nl: "node_level ?nd = \<lparr>price = pr, volume = vol\<rparr>" by (simp add: node_level_def)
  have fresh': "pr \<notin> price ` set (map node_level ?L)" using fresh by (simp add: image_image)
  show "map_inv m'"
  proof (rule map_inv_update[OF inv, of sd])
    show "nodes_of m' sd' = nodes_of m sd'" if "sd' \<noteq> sd" for sd' using that nodes' by simp
    show "sorted_levels (side_cmp sd) (map node_level (nodes_of m' sd))"
      using sorted_insert_at[OF side_cmp_comparator map_inv_sorted[OF inv, of sd] fresh', of vol]
      by (simp add: nodes' map_node_level_insert_at nl)
    show "distinct (map node (nodes_of m' sd))"
      using map_inv_distinct[OF inv, of sd] notin
      by (simp add: nodes' distinct_insert_at keys_of_node)
    show "fst x < mAllocated m'" if "x \<in> keys_of (nodes_of m' sd)" for x
      using that map_inv_bound[OF inv, of x sd] by (auto simp: keys' alloc')
    show "mAllocated m \<le> mAllocated m'" by (simp add: alloc')
    show "(h, k) \<in> keys_of (nodes_of m sd)"
      if "h < mAllocated m" "(h, k) \<in> keys_of (nodes_of m' sd)" for h k
      using that by (auto simp: keys')
  next
    fix j d assume jd: "mOrdersMap m' j = Some d"
    show "(\<exists>d0. mOrdersMap m j = Some d0 \<and> it_of d0 = it_of d \<and> oside d0 = oside d \<and> oprice d0 = oprice d)
        \<or> (\<exists>h. it_of d = Some h \<and> h < mAllocated m' \<and> oside d = sd
              \<and> (\<forall>k. (h, k) \<in> keys_of (nodes_of m' sd) \<longrightarrow> k = oprice d))"
    proof (cases "j = i")
      case True
      then have d: "d = new_details sd pr vol (mAllocated m)" using jd ords' by simp
      have "k = pr" if "(mAllocated m, k) \<in> keys_of (nodes_of m' sd)" for k
        using that notin by (force simp: keys')
      then show ?thesis using d alloc' by (intro disjI2 exI[of _ "mAllocated m"]) simp
    next
      case False
      then have "mOrdersMap m j = Some d" using jd ords' by simp
      then show ?thesis by blast
    qed
  qed
  have lv: "level_at (map node_level ?L) pr = None"
    using fresh' by (simp add: level_at_None_iff)
  show "view_Map m' = w_add (view_Map m) i sd pr vol"
  proof (rule view_Map_eqI)
    fix sd'
    have "level_at (map node_level (insert_at ?L ?pos ?nd)) = (level_at (map node_level ?L))(pr \<mapsto> vol)"
      using level_at_insert_at[OF fresh', of ?pos vol] by (simp add: map_node_level_insert_at nl)
    then show "level_at (map node_level (nodes_of m' sd')) = a_levels (w_add (view_Map m) i sd pr vol) sd'"
      using none lv by (simp add: nodes' w_add_def)
  next
    fix j
    show "map_option strip (mOrdersMap m' j) = a_orders (w_add (view_Map m) i sd pr vol) j"
      using none by (simp add: ords' w_add_def)
  qed
  show "map_valid m'" if v: "map_valid m"
    unfolding map_valid_keys
  proof (intro allI impI)
    fix j d assume jd: "mOrdersMap m' j = Some d"
    show "\<exists>h. it_of d = Some h \<and> h \<in> fst ` keys_of (nodes_of m' (oside d))"
    proof (cases "j = i")
      case True
      then have d: "d = new_details sd pr vol (mAllocated m)" using jd ords' by simp
      have "mAllocated m \<in> fst ` keys_of (nodes_of m' sd)" by (simp add: keys')
      then show ?thesis using d by (intro exI[of _ "mAllocated m"]) simp
    next
      case False
      then have old: "mOrdersMap m j = Some d" using jd ords' by simp
      obtain h where h: "it_of d = Some h" "h \<in> fst ` keys_of (nodes_of m (oside d))"
        using map_valid_order[OF v old] by blast
      have "keys_of (nodes_of m (oside d)) \<subseteq> keys_of (nodes_of m' (oside d))"
        using keys' by (cases "oside d = sd") (auto simp: nodes')
      then show ?thesis using h by (intro exI[of _ h]) auto
    qed
  qed
qed

lemma Map_AddOrder_facts:
  assumes inv: "map_inv m"
  shows "map_inv (OrderBookMap_AddOrder m i sd pr vol)"
    and "view_Map (OrderBookMap_AddOrder m i sd pr vol) = w_add (view_Map m) i sd pr vol"
    and "map_valid m \<Longrightarrow> map_valid (OrderBookMap_AddOrder m i sd pr vol)"
proof -
  have "map_inv (OrderBookMap_AddOrder m i sd pr vol)
      \<and> view_Map (OrderBookMap_AddOrder m i sd pr vol) = w_add (view_Map m) i sd pr vol
      \<and> (map_valid m \<longrightarrow> map_valid (OrderBookMap_AddOrder m i sd pr vol))"
  proof (cases "mOrdersMap m i")
    case (Some d)
    then show ?thesis using inv by (simp add: OrderBookMap_AddOrder_def w_add_def)
  next
    case None
    show ?thesis
    proof (cases "pr \<in> first ` set (nodes_of m sd)")
      case True
      obtain n where n: "n \<in> set (nodes_of m sd)" "first n = pr"
        "OrderBookMap_AddOrder m i sd pr vol =
           (set_nodes m sd (add_second (nodes_of m sd) (node n) vol))
             \<lparr>mOrdersMap := (mOrdersMap m)(i \<mapsto> new_details sd pr vol (node n))\<rparr>"
        using Map_AddOrder_found[OF map_inv_sorted[OF inv, of sd] None True, of vol] by blast
      show ?thesis using Map_Add_found[OF inv None n] by blast
    next
      case False
      show ?thesis
        using Map_Add_fresh[OF inv None False Map_AddOrder_fresh[OF map_inv_sorted[OF inv, of sd] None False, of vol]]
        by blast
    qed
  qed
  then show "map_inv (OrderBookMap_AddOrder m i sd pr vol)"
    and "view_Map (OrderBookMap_AddOrder m i sd pr vol) = w_add (view_Map m) i sd pr vol"
    and "map_valid m \<Longrightarrow> map_valid (OrderBookMap_AddOrder m i sd pr vol)"
    by blast+
qed

text \<open>What a valid iterator of a live order points to.\<close>

lemma Map_deref_facts:
  assumes inv: "map_inv m" and live: "mOrdersMap m i = Some d"
    and de: "deref (nodes_of m (oside d)) (it_of d) = Some n"
  shows "n \<in> set (nodes_of m (oside d))" and "it_of d = Some (node n)" and "first n = oprice d"
    and "level_at (map node_level (nodes_of m (oside d))) (oprice d) = Some (second n)"
proof -
  show n: "n \<in> set (nodes_of m (oside d))" and it: "it_of d = Some (node n)"
    using deref_Some[OF de] by simp_all
  obtain h where h: "it_of d = Some h"
    "\<And>k. (h, k) \<in> keys_of (nodes_of m (oside d)) \<Longrightarrow> k = oprice d"
    using map_inv_order[OF inv live] by blast
  have "h = node n" using h(1) it by simp
  then show f: "first n = oprice d" using h(2)[of "first n"] keys_of_mem[OF n] by simp
  show "level_at (map node_level (nodes_of m (oside d))) (oprice d) = Some (second n)"
    using level_at_node_mem[OF map_inv_distinct_first[OF inv, of "oside d"] n] f by simp
qed

lemma Map_shrink_inv:
  assumes inv: "map_inv m" and live: "mOrdersMap m i = Some d"
    and L': "L' = erase_node (nodes_of m (oside d)) h \<or> L' = add_second (nodes_of m (oside d)) h x"
    and os': "os' = (mOrdersMap m)(i := None) \<or> os' = (mOrdersMap m)(i \<mapsto> d\<lparr>originalVolume := nv\<rparr>)"
    and m': "m' = (set_nodes m (oside d) L')\<lparr>mOrdersMap := os'\<rparr>"
  shows "map_inv m'"
proof (rule map_inv_update[OF inv, of "oside d"])
  let ?L = "nodes_of m (oside d)"
  have nodes': "nodes_of m' sd' = (if sd' = oside d then L' else nodes_of m sd')" for sd'
    by (simp add: m')
  have sub: "keys_of L' \<subseteq> keys_of ?L" using L' by (auto simp: keys_of_erase_node)
  show "nodes_of m' sd' = nodes_of m sd'" if "sd' \<noteq> oside d" for sd' using that nodes' by simp
  show "sorted_levels (side_cmp (oside d)) (map node_level (nodes_of m' (oside d)))"
    using map_inv_sorted[OF inv, of "oside d"] L'
    by (auto simp: nodes' intro: sorted_add_second sorted_erase_node)
  show "distinct (map node (nodes_of m' (oside d)))"
    using map_inv_distinct[OF inv, of "oside d"] L'
    by (auto simp: nodes' intro: distinct_erase_node)
  show "fst y < mAllocated m'" if "y \<in> keys_of (nodes_of m' (oside d))" for y
    using that sub map_inv_bound[OF inv, of y "oside d"] by (auto simp: nodes' m')
  show "mAllocated m \<le> mAllocated m'" by (simp add: m')
  show "(h', k) \<in> keys_of (nodes_of m (oside d))"
    if "(h', k) \<in> keys_of (nodes_of m' (oside d))" for h' k
    using that sub by (auto simp: nodes')
next
  fix j e assume je: "mOrdersMap m' j = Some e"
  have "\<exists>d0. mOrdersMap m j = Some d0 \<and> it_of d0 = it_of e \<and> oside d0 = oside e \<and> oprice d0 = oprice e"
  proof (cases "j = i")
    case True
    then have "e = d\<lparr>originalVolume := nv\<rparr>" using je os' by (auto simp: m')
    then show ?thesis using live True by (intro exI[of _ d]) simp
  next
    case False
    then have "mOrdersMap m j = Some e" using je os' by (auto simp: m')
    then show ?thesis by blast
  qed
  then show "(\<exists>d0. mOrdersMap m j = Some d0 \<and> it_of d0 = it_of e \<and> oside d0 = oside e \<and> oprice d0 = oprice e)
        \<or> (\<exists>h. it_of e = Some h \<and> h < mAllocated m' \<and> oside e = oside d
              \<and> (\<forall>k. (h, k) \<in> keys_of (nodes_of m' (oside d)) \<longrightarrow> k = oprice e))"
    by blast
qed

lemma Map_ModifyOrder_facts:
  assumes inv: "map_inv m" and res: "OrderBookMap_ModifyOrder m i newVolume = Some m'"
  shows "map_inv m'" and "view_Map m' = w_modify (view_Map m) i newVolume"
proof -
  have "map_inv m' \<and> view_Map m' = w_modify (view_Map m) i newVolume"
  proof (cases "mOrdersMap m i")
    case None
    then show ?thesis using res inv by (simp add: OrderBookMap_ModifyOrder_def w_modify_def)
  next
    case (Some d)
    let ?L = "nodes_of m (oside d)"
    let ?diff = "int64 (newVolume - originalVolume d)"
    obtain n where de: "deref ?L (it_of d) = Some n"
      using res by (simp add: Map_ModifyOrder_nf[OF Some] split: option.splits)
    note f = Map_deref_facts[OF inv Some de]
    note dn = map_inv_distinct[OF inv, of "oside d"]
    note df = map_inv_distinct_first[OF inv, of "oside d"]
    show ?thesis
    proof (cases "int64 (second n + ?diff) \<le> 0")
      case True
      then have m': "m' = (set_nodes m (oside d) (erase_node ?L (node n)))\<lparr>mOrdersMap := (mOrdersMap m)(i := None)\<rparr>"
        using res de by (simp add: Map_ModifyOrder_nf[OF Some])
      have i: "map_inv m'"
        by (rule Map_shrink_inv[where h="node n" and x=0 and nv=0, OF inv Some _ _ m']) simp_all
      have v: "view_Map m' = w_modify (view_Map m) i newVolume"
      proof (rule view_Map_eqI)
        fix sd'
        show "level_at (map node_level (nodes_of m' sd')) = a_levels (w_modify (view_Map m) i newVolume) sd'"
          using Some f True level_at_erase_node[OF dn df f(1)]
          by (simp add: m' w_modify_def)
      next
        fix j
        show "map_option strip (mOrdersMap m' j) = a_orders (w_modify (view_Map m) i newVolume) j"
          using Some f True by (simp add: m' w_modify_def)
      qed
      show ?thesis using i v by simp
    next
      case False
      then have m': "m' = (set_nodes m (oside d) (add_second ?L (node n) ?diff))
                           \<lparr>mOrdersMap := (mOrdersMap m)(i \<mapsto> d\<lparr>originalVolume := newVolume\<rparr>)\<rparr>"
        using res de by (simp add: Map_ModifyOrder_nf[OF Some])
      have i: "map_inv m'"
        by (rule Map_shrink_inv[where h="node n" and x="int64 (newVolume - originalVolume d)" and nv=newVolume, OF inv Some _ _ m']) simp_all
      have v: "view_Map m' = w_modify (view_Map m) i newVolume"
      proof (rule view_Map_eqI)
        fix sd'
        show "level_at (map node_level (nodes_of m' sd')) = a_levels (w_modify (view_Map m) i newVolume) sd'"
          using Some f False level_at_add_second[OF dn df f(1), of ?diff]
          by (simp add: m' w_modify_def)
      next
        fix j
        show "map_option strip (mOrdersMap m' j) = a_orders (w_modify (view_Map m) i newVolume) j"
          using Some f False by (simp add: m' w_modify_def)
      qed
      show ?thesis using i v by simp
    qed
  qed
  then show "map_inv m'" and "view_Map m' = w_modify (view_Map m) i newVolume" by simp_all
qed

lemma Map_DeleteOrder_facts:
  assumes inv: "map_inv m" and res: "OrderBookMap_DeleteOrder m i = Some m'"
  shows "map_inv m'" and "view_Map m' = w_delete (view_Map m) i"
proof -
  have "map_inv m' \<and> view_Map m' = w_delete (view_Map m) i"
  proof (cases "mOrdersMap m i")
    case None
    then show ?thesis using res inv by (simp add: OrderBookMap_DeleteOrder_def w_delete_def)
  next
    case (Some d)
    let ?L = "nodes_of m (oside d)"
    obtain n where de: "deref ?L (it_of d) = Some n"
      using res by (simp add: Map_DeleteOrder_nf[OF Some] split: option.splits)
    note f = Map_deref_facts[OF inv Some de]
    note dn = map_inv_distinct[OF inv, of "oside d"]
    note df = map_inv_distinct_first[OF inv, of "oside d"]
    show ?thesis
    proof (cases "int64 (second n - originalVolume d) \<le> 0")
      case True
      then have m': "m' = (set_nodes m (oside d) (erase_node ?L (node n)))\<lparr>mOrdersMap := (mOrdersMap m)(i := None)\<rparr>"
        using res de by (simp add: Map_DeleteOrder_nf[OF Some])
      have i: "map_inv m'"
        by (rule Map_shrink_inv[where h="node n" and x=0 and nv=0, OF inv Some _ _ m']) simp_all
      have v: "view_Map m' = w_delete (view_Map m) i"
      proof (rule view_Map_eqI)
        fix sd'
        show "level_at (map node_level (nodes_of m' sd')) = a_levels (w_delete (view_Map m) i) sd'"
          using Some f True level_at_erase_node[OF dn df f(1)]
          by (simp add: m' w_delete_def)
      next
        fix j
        show "map_option strip (mOrdersMap m' j) = a_orders (w_delete (view_Map m) i) j"
          using Some f True by (simp add: m' w_delete_def)
      qed
      show ?thesis using i v by simp
    next
      case False
      then have m': "m' = (set_nodes m (oside d) (add_second ?L (node n) (- originalVolume d)))
                           \<lparr>mOrdersMap := (mOrdersMap m)(i := None)\<rparr>"
        using res de by (simp add: Map_DeleteOrder_nf[OF Some])
      have i: "map_inv m'"
        by (rule Map_shrink_inv[where h="node n" and x="- originalVolume d" and nv=0, OF inv Some _ _ m']) simp_all
      have v: "view_Map m' = w_delete (view_Map m) i"
      proof (rule view_Map_eqI)
        fix sd'
        show "level_at (map node_level (nodes_of m' sd')) = a_levels (w_delete (view_Map m) i) sd'"
          using Some f False level_at_add_second[OF dn df f(1), of "- originalVolume d"]
          by (simp add: m' w_delete_def)
      next
        fix j
        show "map_option strip (mOrdersMap m' j) = a_orders (w_delete (view_Map m) i) j"
          using Some f False by (simp add: m' w_delete_def)
      qed
      show ?thesis using i v by simp
    qed
  qed
  then show "map_inv m'" and "view_Map m' = w_delete (view_Map m) i" by simp_all
qed

lemma Map_step_facts:
  assumes "map_inv m" "step_Map m x = Some m'"
  shows "map_inv m'" and "view_Map m' = w_step (view_Map m) x"
proof -
  have "map_inv m' \<and> view_Map m' = w_step (view_Map m) x"
  proof (cases x)
    case (Add i sd pr vol)
    then show ?thesis using assms Map_AddOrder_facts(1,2)[OF assms(1), of i sd pr vol] by auto
  next
    case (Modify i vol)
    then show ?thesis using assms Map_ModifyOrder_facts[OF assms(1), of i vol m'] by simp
  next
    case (Delete i)
    then show ?thesis using assms Map_DeleteOrder_facts[OF assms(1), of i m'] by simp
  qed
  then show "map_inv m'" and "view_Map m' = w_step (view_Map m) x" by simp_all
qed

lemma run_Map_from_facts:
  "map_inv m \<Longrightarrow> run_Map_from m xs = Some m' \<Longrightarrow>
   map_inv m' \<and> view_Map m' = foldl w_step (view_Map m) xs"
proof (induction xs arbitrary: m)
  case Nil
  then show ?case by simp
next
  case (Cons x xs)
  obtain m1 where m1: "step_Map m x = Some m1" "run_Map_from m1 xs = Some m'"
    using Cons.prems(2) by (auto split: option.splits)
  note f = Map_step_facts[OF Cons.prems(1) m1(1)]
  show ?case using Cons.IH[OF f(1) m1(2)] f(2) by simp
qed

lemma map_inv_empty [simp]: "map_inv emptyOrderBookMap"
  by (simp add: map_inv_def emptyOrderBookMap_def nodes_of_def)

lemma map_valid_empty [simp]: "map_valid emptyOrderBookMap"
  by (simp add: map_valid_def emptyOrderBookMap_def)

lemma view_Map_empty [simp]: "view_Map emptyOrderBookMap = a_empty"
  by (rule view_Map_eqI) (simp_all add: emptyOrderBookMap_def a_empty_def nodes_of_def)

lemma run_Map_facts:
  assumes "run_Map ops = Some m"
  shows "map_inv m" and "view_Map m = w_run ops"
  using run_Map_from_facts[OF map_inv_empty, of ops m] assms
  by (simp_all add: run_Map_def w_run_def)

lemma a_modify_positive:
  assumes "0 < newVolume" "a_ordpos A" "a_sum A"
    and "a_orders A i = Some d" "a_levels A (oside d) (oprice d) = Some x"
  shows "0 < x + (newVolume - originalVolume d)"
proof -
  let ?orders' = "(a_orders A)(i \<mapsto> d\<lparr>originalVolume := newVolume\<rparr>)"
  have lv: "live_volume ?orders' (oside d) (oprice d) =
            live_volume (a_orders A) (oside d) (oprice d) + (newVolume - originalVolume d)"
    using live_volume_upd[where orders="a_orders A" and i=i and d=d and n=newVolume
        and sd="oside d" and p="oprice d", OF assms(4)] by simp
  have xs: "x = live_volume (a_orders A) (oside d) (oprice d)"
    using assms(3,5) by (simp add: a_sum_def)
  have pos': "\<forall>j e. ?orders' j = Some e \<longrightarrow> 0 < originalVolume e"
    using assms(1,2) by (auto simp: a_ordpos_def)
  have "0 < live_volume ?orders' (oside (d\<lparr>originalVolume := newVolume\<rparr>)) (oprice (d\<lparr>originalVolume := newVolume\<rparr>))"
    by (rule live_volume_pos[where orders="?orders'" and i=i and d="d\<lparr>originalVolume := newVolume\<rparr>", OF pos']) simp
  then show ?thesis using lv xs by simp
qed

lemma Map_valid_deref:
  assumes "map_valid m" "mOrdersMap m i = Some d"
  shows "\<exists>n. deref (nodes_of m (oside d)) (it_of d) = Some n"
proof -
  obtain h where h: "it_of d = Some h" "h \<in> fst ` keys_of (nodes_of m (oside d))"
    using map_valid_order[OF assms] by blast
  then have "h \<in> node ` set (nodes_of m (oside d))" by (simp add: keys_of_node)
  then show ?thesis using deref_mem h(1) by simp
qed

lemma map_valid_same_keys:
  assumes v: "map_valid m" and live: "mOrdersMap m i = Some d"
    and nodes': "\<And>sd'. keys_of (nodes_of m' sd') = keys_of (nodes_of m sd')"
    and os': "mOrdersMap m' = (mOrdersMap m)(i := None) \<or>
              mOrdersMap m' = (mOrdersMap m)(i \<mapsto> d\<lparr>originalVolume := nv\<rparr>)"
  shows "map_valid m'"
  unfolding map_valid_keys
proof (intro allI impI)
  fix j e assume je: "mOrdersMap m' j = Some e"
  have "\<exists>d0. mOrdersMap m j = Some d0 \<and> it_of d0 = it_of e \<and> oside d0 = oside e"
  proof (cases "j = i")
    case True
    then have "e = d\<lparr>originalVolume := nv\<rparr>" using je os' by auto
    then show ?thesis using live True by (intro exI[of _ d]) simp
  next
    case False
    then have "mOrdersMap m j = Some e" using je os' by auto
    then show ?thesis by blast
  qed
  then obtain d0 where d0: "mOrdersMap m j = Some d0" "it_of d0 = it_of e" "oside d0 = oside e" by blast
  obtain h where h: "it_of d0 = Some h" "h \<in> fst ` keys_of (nodes_of m (oside d0))"
    using map_valid_order[OF v d0(1)] by blast
  show "\<exists>h. it_of e = Some h \<and> h \<in> fst ` keys_of (nodes_of m' (oside e))"
    using h d0(2,3) nodes'[of "oside e"] by (intro exI[of _ h]) simp
qed

lemma Map_ModifyOrder_valid:
  assumes inv: "map_inv m" and v: "map_valid m" and pos: "0 < newVolume"
    and A: "a_ordpos (view_Map m)" "a_sum (view_Map m)"
    and B: "a_bounded M k (view_Map m)" "\<bar>newVolume\<bar> \<le> M" "2 * M * int (Suc k) < 2 ^ 63"
  shows "\<exists>m'. OrderBookMap_ModifyOrder m i newVolume = Some m' \<and> map_valid m'"
proof (cases "mOrdersMap m i")
  case None
  then show ?thesis using v by (simp add: OrderBookMap_ModifyOrder_def)
next
  case (Some d)
  let ?L = "nodes_of m (oside d)"
  let ?diff = "int64 (newVolume - originalVolume d)"
  obtain n where de: "deref ?L (it_of d) = Some n" using Map_valid_deref[OF v Some] by blast
  note f = Map_deref_facts[OF inv Some de]
  have "0 < second n + (newVolume - originalVolume d)"
    using a_modify_positive[OF pos A, of i "strip d" "second n"] Some f(4) by simp
  moreover have "?diff = newVolume - originalVolume d
      \<and> int64 (second n + (newVolume - originalVolume d)) = second n + (newVolume - originalVolume d)"
    using bounded_modify_in_range[OF B(1,3), of i "strip d" "second n" newVolume] B(2) Some f(4)
    by simp
  ultimately have "\<not> int64 (second n + ?diff) \<le> 0" by simp
  then have eq: "OrderBookMap_ModifyOrder m i newVolume =
        Some ((set_nodes m (oside d) (add_second ?L (node n) ?diff))
                \<lparr>mOrdersMap := (mOrdersMap m)(i \<mapsto> d\<lparr>originalVolume := newVolume\<rparr>)\<rparr>)"
    using de by (simp add: Map_ModifyOrder_nf[OF Some])
  have "map_valid ((set_nodes m (oside d) (add_second ?L (node n) ?diff))
                \<lparr>mOrdersMap := (mOrdersMap m)(i \<mapsto> d\<lparr>originalVolume := newVolume\<rparr>)\<rparr>)"
    by (rule map_valid_same_keys[where nv=newVolume, OF v Some]) simp_all
  then show ?thesis using eq by simp
qed

lemma Map_DeleteOrder_valid:
  assumes inv: "map_inv m" and v: "map_valid m"
    and A: "a_ordpos (view_Map m)" "a_sum (view_Map m)" "a_has (view_Map m)"
    and B: "a_bounded M k (view_Map m)" "0 \<le> M" "2 * M * int (Suc k) < 2 ^ 63"
  shows "\<exists>m'. OrderBookMap_DeleteOrder m i = Some m' \<and> map_valid m'"
proof (cases "mOrdersMap m i")
  case None
  then show ?thesis using v by (simp add: OrderBookMap_DeleteOrder_def)
next
  case (Some d)
  let ?L = "nodes_of m (oside d)"
  obtain n where de: "deref ?L (it_of d) = Some n" using Map_valid_deref[OF v Some] by blast
  note f = Map_deref_facts[OF inv Some de]
  show ?thesis
  proof (cases "int64 (second n - originalVolume d) \<le> 0")
    case False
    then have eq: "OrderBookMap_DeleteOrder m i =
        Some ((set_nodes m (oside d) (add_second ?L (node n) (- originalVolume d)))
                \<lparr>mOrdersMap := (mOrdersMap m)(i := None)\<rparr>)"
      using de by (simp add: Map_DeleteOrder_nf[OF Some])
    have "map_valid ((set_nodes m (oside d) (add_second ?L (node n) (- originalVolume d)))
                \<lparr>mOrdersMap := (mOrdersMap m)(i := None)\<rparr>)"
      by (rule map_valid_same_keys[where nv=0, OF v Some]) simp_all
    then show ?thesis using eq by simp
  next
    case True
    define m' where "m' = (set_nodes m (oside d) (erase_node ?L (node n)))\<lparr>mOrdersMap := (mOrdersMap m)(i := None)\<rparr>"
    have eq: "OrderBookMap_DeleteOrder m i = Some m'"
      using de True by (simp add: Map_DeleteOrder_nf[OF Some] m'_def)
    have view': "view_Map m' = a_delete (view_Map m) i"
      using Map_DeleteOrder_facts(2)[OF inv eq] w_step_eq[OF B(1) _ B(3), of "Delete i"] B(2)
      by simp
    have has': "a_has (view_Map m')"
      using a_consistent_delete[OF A, of i] view' by simp
    have gone: "level_at (map node_level (nodes_of m' (oside d))) (oprice d) = None"
      using level_at_erase_node[OF map_inv_distinct[OF inv, of "oside d"]
          map_inv_distinct_first[OF inv, of "oside d"] f(1)] f(3)
      by (simp add: m'_def)
    have "map_valid m'"
      unfolding map_valid_keys
    proof (intro allI impI)
      fix j e assume je: "mOrdersMap m' j = Some e"
      then have ji: "j \<noteq> i" and old: "mOrdersMap m j = Some e"
        by (auto simp: m'_def split: if_splits)
      obtain h where h: "it_of e = Some h" "h \<in> fst ` keys_of (nodes_of m (oside e))"
        using map_valid_order[OF v old] by blast
      obtain h' where h': "it_of e = Some h'"
        "\<And>k. (h', k) \<in> keys_of (nodes_of m (oside e)) \<Longrightarrow> k = oprice e"
        using map_inv_order[OF inv old] by blast
      have hh: "h' = h" using h(1) h'(1) by simp
      have "h \<in> fst ` keys_of (nodes_of m' (oside e))"
      proof (cases "oside e = oside d")
        case False
        then show ?thesis using h(2) by (simp add: m'_def)
      next
        case same: True
        have "h \<noteq> node n"
        proof
          assume "h = node n"
          then have "(h', first n) \<in> keys_of (nodes_of m (oside e))"
            using keys_of_mem[OF f(1)] same hh by simp
          then have "first n = oprice e" by (rule h'(2))
          then have pe: "oprice e = oprice d" using f(3) by simp
          have "a_orders (view_Map m') j = Some (strip e)" using je by simp
          then have "a_levels (view_Map m') (oside (strip e)) (oprice (strip e)) \<noteq> None"
            using has' unfolding a_has_def by blast
          then show False using gone same pe by simp
        qed
        moreover obtain k where "(h, k) \<in> keys_of (nodes_of m (oside d))"
          using h(2) same by fastforce
        ultimately have "(h, k) \<in> keys_of (nodes_of m' (oside e))"
          using same by (simp add: m'_def keys_of_erase_node)
        then show ?thesis by (rule image_eqI[rotated]) simp
      qed
      then show "\<exists>h. it_of e = Some h \<and> h \<in> fst ` keys_of (nodes_of m' (oside e))"
        using h(1) by blast
    qed
    then show ?thesis using eq by simp
  qed
qed

lemma Map_step_valid:
  assumes "map_inv m" "map_valid m" "positive_volume x"
    and "a_ordpos (view_Map m)" "a_sum (view_Map m)" "a_has (view_Map m)"
    and B: "a_bounded M k (view_Map m)" "\<bar>op_volume x\<bar> \<le> M" "2 * M * int (Suc k) < 2 ^ 63"
  shows "\<exists>m'. step_Map m x = Some m' \<and> map_valid m'"
proof (cases x)
  case (Add i sd pr vol)
  then show ?thesis using Map_AddOrder_facts(3)[OF assms(1,2), of i sd pr vol] by simp
next
  case (Modify i vol)
  then show ?thesis
    using Map_ModifyOrder_valid[OF assms(1,2) _ assms(4,5) B(1) _ B(3), of vol i] assms(3) B(2) by simp
next
  case (Delete i)
  have "0 \<le> M" using B(2) by simp
  then show ?thesis using Delete Map_DeleteOrder_valid[OF assms(1,2,4,5,6) B(1) _ B(3), of i] by simp
qed

lemma run_Map_from_defined:
  "map_inv m \<Longrightarrow> map_valid m \<Longrightarrow>
   a_ordpos (view_Map m) \<and> a_sum (view_Map m) \<and> a_has (view_Map m) \<Longrightarrow>
   \<forall>x\<in>set xs. positive_volume x \<Longrightarrow>
   a_bounded M k (view_Map m) \<Longrightarrow> \<forall>x\<in>set xs. \<bar>op_volume x\<bar> \<le> M \<Longrightarrow> 0 \<le> M \<Longrightarrow>
   2 * M * int (k + length xs) < 2 ^ 63 \<Longrightarrow>
   \<exists>m'. run_Map_from m xs = Some m' \<and> map_valid m'"
proof (induction xs arbitrary: m k)
  case Nil
  then show ?case by simp
next
  case (Cons x xs)
  have px: "positive_volume x" using Cons.prems(4) by simp
  have vx: "\<bar>op_volume x\<bar> \<le> M" using Cons.prems(6) by simp
  have "2 * M * int (Suc k) \<le> 2 * M * int (k + length (x # xs))"
    using Cons.prems(7) by (intro mult_left_mono) simp_all
  then have k: "2 * M * int (Suc k) < 2 ^ 63" using Cons.prems(8) by linarith
  obtain m1 where m1: "step_Map m x = Some m1" "map_valid m1"
    using Map_step_valid[OF Cons.prems(1,2) px _ _ _ Cons.prems(5) vx k] Cons.prems(3) by blast
  note f = Map_step_facts[OF Cons.prems(1) m1(1)]
  have v1: "view_Map m1 = a_step (view_Map m) x"
    using f(2) w_step_eq[OF Cons.prems(5) vx k] by simp
  have A1: "a_ordpos (view_Map m1) \<and> a_sum (view_Map m1) \<and> a_has (view_Map m1)"
    using a_consistent_step[OF px Cons.prems(3)] v1 by simp
  have B1: "a_bounded M (Suc k) (view_Map m1)"
    using a_bounded_step[OF Cons.prems(5) vx] v1 by simp
  have "\<forall>x\<in>set xs. positive_volume x" "\<forall>x\<in>set xs. \<bar>op_volume x\<bar> \<le> M"
    "2 * M * int (Suc k + length xs) < 2 ^ 63"
    using Cons.prems(4,6,8) by simp_all
  from Cons.IH[OF f(1) m1(2) A1 this(1) B1 this(2) Cons.prems(7) this(3)] show ?case
    using m1(1) by simp
qed

lemma run_Map_defined:
  assumes "\<forall>x\<in>set ops. positive_volume x" "small_volumes ops"
  shows "\<exists>m. run_Map ops = Some m \<and> map_valid m"
  unfolding run_Map_def
  by (rule run_Map_from_defined[where M="max_volume ops" and k=0])
     (use assms in \<open>simp_all add: small_volumes_def max_volume_ge max_volume_nonneg\<close>)

lemma run_Map_from_snoc:
  "run_Map_from m (xs @ [x]) = (case run_Map_from m xs of None \<Rightarrow> None | Some m1 \<Rightarrow> step_Map m1 x)"
  by (induction xs arbitrary: m) (simp_all split: option.splits)

lemma run_Map_snoc:
  "run_Map (ops @ [x]) = (case run_Map ops of None \<Rightarrow> None | Some m \<Rightarrow> step_Map m x)"
  by (simp add: run_Map_def run_Map_from_snoc)
section \<open>From the abstraction back to the books\<close>

lemma a_levels_of_level:
  assumes "is_comparator bc" "is_comparator ac" "sorted_book bc ac b" "l \<in> set (levels_of b sd)"
  shows "a_levels (view b) sd (price l) = Some (volume l)"
  using level_at_mem[OF sorted_book_distinct[OF assms(1,2,3), of sd] assms(4)] by simp

lemma a_levels_of_node:
  assumes "map_inv m" "n \<in> set (nodes_of m sd)"
  shows "a_levels (view_Map m) sd (first n) = Some (second n)"
  using level_at_node_mem[OF map_inv_distinct_first[OF assms(1), of sd] assms(2)] by simp

lemma levels_positive:
  assumes "is_comparator bc" "is_comparator ac" "sorted_book bc ac b" "a_pos (view b)"
    and "l \<in> set (mBidLevels b) \<union> set (mAskLevels b)"
  shows "0 < volume l"
proof -
  obtain sd where "l \<in> set (levels_of b sd)"
    using assms(5) levels_of_simps(1,2)[of b] by (metis Un_iff)
  then have "a_levels (view b) sd (price l) = Some (volume l)"
    by (rule a_levels_of_level[OF assms(1,2,3)])
  then show ?thesis using assms(4) unfolding a_pos_def by blast
qed

lemma nodes_positive:
  assumes "map_inv m" "a_pos (view_Map m)"
    and "n \<in> set (mBidLevelsMap m) \<union> set (mAskLevelsMap m)"
  shows "0 < second n"
proof -
  obtain sd where "n \<in> set (nodes_of m sd)"
    using assms(3) nodes_of_simps(1,2)[of m] by (metis Un_iff)
  then have "a_levels (view_Map m) sd (first n) = Some (second n)"
    by (rule a_levels_of_node[OF assms(1)])
  then show ?thesis using assms(2) unfolding a_pos_def by blast
qed

lemma orders_positive:
  assumes "view b = A" "a_ordpos A" "mOrders b i = Some d"
  shows "0 < originalVolume d"
proof -
  have "a_orders (view b) i = Some d" using assms(3) by simp
  then have "a_orders A i = Some d" using assms(1) by simp
  then show ?thesis using assms(2) unfolding a_ordpos_def by blast
qed

lemma orders_positive_Map:
  assumes "view_Map m = A" "a_ordpos A" "mOrdersMap m i = Some d"
  shows "0 < originalVolume d"
proof -
  have "a_orders (view_Map m) i = Some (strip d)" using assms(3) by simp
  then have "0 < originalVolume (strip d)" using assms(1,2) unfolding a_ordpos_def by blast
  then show ?thesis by simp
qed

lemma hd_nodes_greater:
  assumes "sorted_levels (>) (map node_level L)" "L \<noteq> []"
  shows "first (hd L) = Max (first ` set L)"
  using hd_sorted_greater[OF assms(1)] assms(2) by (simp add: hd_map image_image)

lemma hd_nodes_less:
  assumes "sorted_levels (<) (map node_level L)" "L \<noteq> []"
  shows "first (hd L) = Min (first ` set L)"
  using hd_sorted_less[OF assms(1)] assms(2) by (simp add: hd_map image_image)

lemma GetBestPrices_Map_sorted:
  assumes "map_inv m" "mBidLevelsMap m \<noteq> []" "mAskLevelsMap m \<noteq> []"
  shows "OrderBookMap_GetBestPrices m = (Max (first ` set (mBidLevelsMap m)), Min (first ` set (mAskLevelsMap m)))"
  using assms map_inv_sorted[OF assms(1), of Bid] map_inv_sorted[OF assms(1), of Ask]
  by (simp add: OrderBookMap_GetBestPrices_def side_cmp_def hd_nodes_greater hd_nodes_less)





text \<open>The effect of a further \<^verbatim>\<open>ModifyOrder\<close> on the book a sequence ends in.\<close>

lemma modify_effect_from_view:
  assumes v: "view b' = a_modify (view b) i newVolume"
    and absent: "\<And>d. mOrders b i = Some d \<Longrightarrow> level_at (levels_of b (oside d)) (oprice d) = None \<Longrightarrow> b' = b"
  shows "modify_effect b b' i newVolume"
proof -
  have lv: "level_at (levels_of b' sd) p = a_levels (a_modify (view b) i newVolume) sd p" for sd p
    using v view_sel(1)[of b' sd] by simp
  have os: "mOrders b' j = a_orders (a_modify (view b) i newVolume) j" for j
    using v view_sel(2)[of b'] by simp
  have present: "(if x + (newVolume - originalVolume d) \<le> 0
         then level_at (levels_of b' (oside d)) (oprice d) = None \<and> mOrders b' i = None
         else level_at (levels_of b' (oside d)) (oprice d) = Some (x + (newVolume - originalVolume d))
            \<and> mOrders b' i = Some (d\<lparr>originalVolume := newVolume\<rparr>))
      \<and> (\<forall>sd p. (sd, p) \<noteq> (oside d, oprice d) \<longrightarrow>
             level_at (levels_of b' sd) p = level_at (levels_of b sd) p)
      \<and> (\<forall>j. j \<noteq> i \<longrightarrow> mOrders b' j = mOrders b j)"
    if "mOrders b i = Some d \<and> level_at (levels_of b (oside d)) (oprice d) = Some x" for d x
    using that by (auto simp: lv os a_modify_def)
  show ?thesis
    unfolding modify_effect_def using present absent by blast
qed

lemma modify_removes_from_effect:
  "modify_effect b b' i newVolume \<Longrightarrow> modify_removes b b' i newVolume"
  unfolding modify_effect_def modify_removes_def
  by (intro allI impI) (auto split: if_splits)

lemma ModifyOrder_bs_absent:
  assumes "is_comparator bc" "is_comparator ac" "sorted_book bc ac b"
    and "mOrders b i = Some d" "level_at (levels_of b (oside d)) (oprice d) = None"
  shows "ModifyOrder_bs partition_point bc ac b i nv = b"
proof -
  let ?cmp = "if oside d = Bid then bc else ac"
  have c: "is_comparator ?cmp" using assms(1,2) by simp
  have s: "sorted_levels ?cmp (levels_of b (oside d))"
    using assms(3) by (simp add: sorted_book_levels_of)
  have "\<not> (insertion_point ?cmp (levels_of b (oside d)) (oprice d) \<noteq> length (levels_of b (oside d))
        \<and> price (levels_of b (oside d) ! insertion_point ?cmp (levels_of b (oside d)) (oprice d)) = oprice d)"
    using found_iff_level_at[OF c s, of "oprice d"] assms(5) by simp
  then show ?thesis using assms(4) by (cases "oside d") (auto simp: ModifyOrder_bs_def Let_def)
qed

lemma modify_effect_run:
  assumes c: "is_comparator bc" "is_comparator ac"
    and facts: "\<And>xs. sorted_book bc ac (run xs)" "\<And>xs. view (run xs) = w_run xs"
      "\<And>xs. run xs = foldl (step_bs partition_point bc ac) emptyVectorBook xs"
    and small: "small_volumes (ops @ [Modify i nv])"
  shows "modify_effect (run ops) (run (ops @ [Modify i nv])) i nv"
proof (rule modify_effect_from_view)
  show "view (run (ops @ [Modify i nv])) = a_modify (view (run ops)) i nv"
    using facts(2) small_modify_views[OF small] by simp
  fix d assume live: "mOrders (run ops) i = Some d"
    and none: "level_at (levels_of (run ops) (oside d)) (oprice d) = None"
  have "run (ops @ [Modify i nv]) = ModifyOrder_bs partition_point bc ac (run ops) i nv"
    using facts(3)[of "ops @ [Modify i nv]"] facts(3)[of ops] by simp
  then show "run (ops @ [Modify i nv]) = run ops"
    using ModifyOrder_bs_absent[OF c facts(1) live none] by simp
qed

lemma modify_effect_Map_run:
  assumes small: "small_volumes (ops @ [Modify i nv])"
  shows "modify_effect_Map (run_Map ops) (run_Map (ops @ [Modify i nv])) i nv"
proof -
  have absent: "run_Map (ops @ [Modify i nv]) = None"
    if "run_Map ops = Some m \<and> mOrdersMap m i = Some d \<and> deref (nodes_of m (oside d)) (it_of d) = None"
    for m d
    using that by (simp add: run_Map_snoc Map_ModifyOrder_nf[of m i d])
  have present: "first n = oprice d
      \<and> (\<exists>m'. run_Map (ops @ [Modify i nv]) = Some m'
          \<and> (if second n + (nv - originalVolume d) \<le> 0
             then level_at (map node_level (nodes_of m' (oside d))) (oprice d) = None
                \<and> mOrdersMap m' i = None
             else level_at (map node_level (nodes_of m' (oside d))) (oprice d) = Some (second n + (nv - originalVolume d))
                \<and> mOrdersMap m' i = Some (d\<lparr>originalVolume := nv\<rparr>))
          \<and> (\<forall>sd p. (sd, p) \<noteq> (oside d, oprice d) \<longrightarrow>
                 level_at (map node_level (nodes_of m' sd)) p = level_at (map node_level (nodes_of m sd)) p)
          \<and> (\<forall>j. j \<noteq> i \<longrightarrow> mOrdersMap m' j = mOrdersMap m j))"
    if h: "run_Map ops = Some m \<and> mOrdersMap m i = Some d
           \<and> deref (nodes_of m (oside d)) (it_of d) = Some n" for m d n
  proof -
    let ?delta = "nv - originalVolume d"
    have r: "run_Map ops = Some m" and live: "mOrdersMap m i = Some d"
      and de: "deref (nodes_of m (oside d)) (it_of d) = Some n"
      using h by simp_all
    have inv: "map_inv m" by (rule run_Map_facts(1)[OF r])
    have vm: "view_Map m = a_run ops"
      using run_Map_facts(2)[OF r] small_modify_views(1)[OF small] by simp
    note f = Map_deref_facts[OF inv live de]
    have "\<exists>m'. OrderBookMap_ModifyOrder m i nv = Some m'"
      using de by (simp add: Map_ModifyOrder_nf[OF live])
    then obtain m' where m': "OrderBookMap_ModifyOrder m i nv = Some m'" by blast
    have r': "run_Map (ops @ [Modify i nv]) = Some m'"
      using r m' by (simp add: run_Map_snoc)
    have v: "view_Map m' = a_modify (view_Map m) i nv"
      using run_Map_facts(2)[OF r'] small_modify_views(2)[OF small] vm by simp
    have lv: "level_at (map node_level (nodes_of m' sd)) p = a_levels (a_modify (view_Map m) i nv) sd p" for sd p
      using v view_Map_sel(1)[of m' sd] by simp
    have so: "map_option strip (mOrdersMap m' j) = a_orders (a_modify (view_Map m) i nv) j" for j
      using v view_Map_sel(2)[of m'] by simp
    have am: "a_modify (view_Map m) i nv =
        (if second n + ?delta \<le> 0
         then \<lparr>a_levels = (a_levels (view_Map m))(oside d := (a_levels (view_Map m) (oside d))(oprice d := None)),
               a_orders = (a_orders (view_Map m))(i := None)\<rparr>
         else \<lparr>a_levels = (a_levels (view_Map m))(oside d := (a_levels (view_Map m) (oside d))(oprice d \<mapsto> second n + ?delta)),
               a_orders = (a_orders (view_Map m))(i \<mapsto> (strip d)\<lparr>originalVolume := nv\<rparr>)\<rparr>)"
      using live f(4) by (simp add: a_modify_def)
    have shape: "(mOrdersMap m' i = None \<or> mOrdersMap m' i = Some (d\<lparr>originalVolume := nv\<rparr>))
             \<and> (\<forall>j. j \<noteq> i \<longrightarrow> mOrdersMap m' j = mOrdersMap m j)"
      using m' de by (auto simp: Map_ModifyOrder_nf[OF live] split: if_splits)
    have gone: "mOrdersMap m' i = None \<longleftrightarrow> second n + ?delta \<le> 0"
      using so[of i] by (cases "second n + ?delta \<le> 0") (auto simp: am)
    have ord: "(if second n + ?delta \<le> 0 then mOrdersMap m' i = None
               else mOrdersMap m' i = Some (d\<lparr>originalVolume := nv\<rparr>))"
      using shape gone by auto
    have lev: "(if second n + ?delta \<le> 0
               then level_at (map node_level (nodes_of m' (oside d))) (oprice d) = None
               else level_at (map node_level (nodes_of m' (oside d))) (oprice d) = Some (second n + ?delta))
             \<and> (\<forall>sd p. (sd, p) \<noteq> (oside d, oprice d) \<longrightarrow>
                   level_at (map node_level (nodes_of m' sd)) p = level_at (map node_level (nodes_of m sd)) p)"
      by (auto simp: lv am)
    show ?thesis
      using f(3) r' ord lev shape by (intro conjI exI[of _ m']) (simp_all split: if_splits)
  qed
  show ?thesis
    unfolding modify_effect_Map_def using present absent by blast
qed

lemma modify_removes_Map_from_effect:
  assumes "modify_effect_Map r r' i newVolume"
  shows "modify_removes_Map r r' i newVolume"
  unfolding modify_removes_Map_def
proof (intro allI impI)
  fix m d n
  assume h: "r = Some m \<and> mOrdersMap m i = Some d \<and> deref (nodes_of m (oside d)) (it_of d) = Some n"
  have "\<exists>m'. r' = Some m'
          \<and> (if second n + (newVolume - originalVolume d) \<le> 0
             then level_at (map node_level (nodes_of m' (oside d))) (oprice d) = None
                \<and> mOrdersMap m' i = None
             else level_at (map node_level (nodes_of m' (oside d))) (oprice d)
                    = Some (second n + (newVolume - originalVolume d))
                \<and> mOrdersMap m' i = Some (d\<lparr>originalVolume := newVolume\<rparr>))"
    using assms h unfolding modify_effect_Map_def by blast
  then obtain m' where m': "r' = Some m'"
    "if second n + (newVolume - originalVolume d) \<le> 0 then mOrdersMap m' i = None
     else mOrdersMap m' i = Some (d\<lparr>originalVolume := newVolume\<rparr>)"
    by (auto split: if_splits)
  show "\<exists>m'. r' = Some m' \<and> map_option originalVolume (mOrdersMap m' i) =
          (if second n + (newVolume - originalVolume d) \<le> 0 then None else Some newVolume)"
    using m' by (intro exI[of _ m']) (auto split: if_splits)
qed

text \<open>The best prices are a function of the abstraction.\<close>

lemma dom_level_at: "dom (level_at L) = price ` set L"
  by (auto simp: dom_def level_at_None_iff)

lemma best_front:
  assumes "sorted_book (>) (<) b"
  shows "GetBestPrices_front b = a_best (view b)"
proof (cases "mBidLevels b = [] \<or> mAskLevels b = []")
  case True
  then show ?thesis by (auto simp: GetBestPrices_front_def a_best_def dom_level_at)
next
  case False
  then show ?thesis using GetBestPrices_front_sorted[OF assms]
    by (simp add: a_best_def dom_level_at)
qed

lemma best_back:
  assumes "sorted_book (<) (>) b"
  shows "GetBestPrices_back b = a_best (view b)"
proof (cases "mBidLevels b = [] \<or> mAskLevels b = []")
  case True
  then show ?thesis by (auto simp: GetBestPrices_back_def a_best_def dom_level_at)
next
  case False
  then show ?thesis using GetBestPrices_back_sorted[OF assms]
    by (simp add: a_best_def dom_level_at)
qed

lemma best_Map:
  assumes "map_inv m"
  shows "OrderBookMap_GetBestPrices m = a_best (view_Map m)"
proof (cases "mBidLevelsMap m = [] \<or> mAskLevelsMap m = []")
  case True
  then show ?thesis by (auto simp: OrderBookMap_GetBestPrices_def a_best_def dom_level_at)
next
  case False
  then show ?thesis using GetBestPrices_Map_sorted[OF assms]
    by (simp add: a_best_def dom_level_at image_image)
qed

lemma best_prices_agree:
  "OrderBookVector_GetBestPrices (run_Vector ops) = a_best (w_run ops)"
  "OrderBookVectorEfficient_GetBestPrices (run_Efficient ops) = a_best (w_run ops)"
  "OrderBookVectorBranchless_GetBestPrices (run_Branchless ops) = a_best (w_run ops)"
  "OrderBookVectorLinear_GetBestPrices (run_Linear ops) = a_best (w_run ops)"
  "run_Map ops = Some m \<Longrightarrow> OrderBookMap_GetBestPrices m = a_best (w_run ops)"
  using best_front[OF run_Vector_facts(1), of ops] best_back[OF run_Efficient_facts(1), of ops]
    best_back[OF run_Branchless_facts(1), of ops] best_back[OF run_Linear_facts(1), of ops]
    best_Map[OF run_Map_facts(1), of ops m] run_Map_facts(2)[of ops m]
  by (simp_all add: OrderBookVector_GetBestPrices_def OrderBookVectorEfficient_GetBestPrices_def
      OrderBookVectorBranchless_GetBestPrices_def OrderBookVectorLinear_GetBestPrices_def
      run_Vector_facts(2) run_Efficient_facts(2) run_Branchless_facts(2) run_Linear_facts(2))
section \<open>Evaluation on concrete books\<close>

lemmas book_defs =
  OrderBookVector_AddOrder_def OrderBookVector_ModifyOrder_def OrderBookVector_DeleteOrder_def
  OrderBookVector_GetBestPrices_def
  OrderBookVectorEfficient_AddOrder_def OrderBookVectorEfficient_ModifyOrder_def
  OrderBookVectorEfficient_DeleteOrder_def OrderBookVectorEfficient_GetBestPrices_def
  OrderBookVectorBranchless_AddOrder_def OrderBookVectorBranchless_ModifyOrder_def
  OrderBookVectorBranchless_DeleteOrder_def OrderBookVectorBranchless_GetBestPrices_def
  OrderBookVectorLinear_AddOrder_def OrderBookVectorLinear_ModifyOrder_def
  OrderBookVectorLinear_DeleteOrder_def OrderBookVectorLinear_GetBestPrices_def
  OrderBookMap_AddOrder_def OrderBookMap_ModifyOrder_def OrderBookMap_DeleteOrder_def
  OrderBookMap_GetBestPrices_def
  AddOrder_bs_def ModifyOrder_bs_def DeleteOrder_bs_def AddOrderImpl_def AddOrderImpl_Linear_def
  GetBestPrices_front_def GetBestPrices_back_def
  lower_bound_def branchless_lower_bound_def insert_at_def erase_at_def add_volume_at_def
  levels_of_def set_levels_def by_price_def try_emplace_def deref_def add_second_def erase_node_def
  emptyVectorBook_def emptyOrderBookMap_def
  run_Vector_def run_Efficient_def run_Branchless_def run_Linear_def run_Map_def
  lower_bound_loop.simps branchless_loop.simps
  int64_def in_int64_def small_volumes_def max_volume_def

section \<open>Best prices of a book with an empty side\<close>

text \<open>
  C3. In every book state in which the bid side or the ask side holds no level,
  \<^verbatim>\<open>GetBestPrices\<close> returns the pair (0, 0), also when the other side holds levels.
  The function returns a pair in every state; there is no error result. This holds
  for each of the five classes.
\<close>

theorem C3_sentinel_pair_when_a_side_is_empty:
  "(mBidLevels b = [] \<or> mAskLevels b = [] \<longrightarrow>
      OrderBookVector_GetBestPrices b = (0, 0)
    \<and> OrderBookVectorEfficient_GetBestPrices b = (0, 0)
    \<and> OrderBookVectorBranchless_GetBestPrices b = (0, 0)
    \<and> OrderBookVectorLinear_GetBestPrices b = (0, 0))
 \<and> (mBidLevelsMap m = [] \<or> mAskLevelsMap m = [] \<longrightarrow> OrderBookMap_GetBestPrices m = (0, 0))"
  by (simp add: OrderBookVector_GetBestPrices_def OrderBookVectorEfficient_GetBestPrices_def
      OrderBookVectorBranchless_GetBestPrices_def OrderBookVectorLinear_GetBestPrices_def
      OrderBookMap_GetBestPrices_def GetBestPrices_front_def GetBestPrices_back_def)

theorem C3_sentinel_pair_witness:
  "mBidLevels (OrderBookVector_AddOrder emptyVectorBook 1 Bid 100 50) \<noteq> []
 \<and> mAskLevels (OrderBookVector_AddOrder emptyVectorBook 1 Bid 100 50) = []
 \<and> OrderBookVector_GetBestPrices (OrderBookVector_AddOrder emptyVectorBook 1 Bid 100 50) = (0, 0)
 \<and> OrderBookVectorEfficient_GetBestPrices (OrderBookVector_AddOrder emptyVectorBook 1 Bid 100 50) = (0, 0)
 \<and> OrderBookVectorBranchless_GetBestPrices (OrderBookVector_AddOrder emptyVectorBook 1 Bid 100 50) = (0, 0)
 \<and> OrderBookVectorLinear_GetBestPrices (OrderBookVector_AddOrder emptyVectorBook 1 Bid 100 50) = (0, 0)
 \<and> mBidLevelsMap (OrderBookMap_AddOrder emptyOrderBookMap 1 Bid 100 50) \<noteq> []
 \<and> mAskLevelsMap (OrderBookMap_AddOrder emptyOrderBookMap 1 Bid 100 50) = []
 \<and> OrderBookMap_GetBestPrices (OrderBookMap_AddOrder emptyOrderBookMap 1 Bid 100 50) = (0, 0)"
  using C3_sentinel_pair_when_a_side_is_empty
    [of "OrderBookVector_AddOrder emptyVectorBook 1 Bid 100 50"
        "OrderBookMap_AddOrder emptyOrderBookMap 1 Bid 100 50"]
  by (simp add: book_defs)

text \<open>
  C2, as the claim states it, fails: after the single call
  \<^verbatim>\<open>AddOrder(1, Bid, 100, 50)\<close> on a new book the result is not (100, 0), in any of
  the five classes.
\<close>

theorem C2_first_bid_counterexample:
  "OrderBookMap_GetBestPrices (OrderBookMap_AddOrder emptyOrderBookMap 1 Bid 100 50) \<noteq> (100, 0)
 \<and> OrderBookVector_GetBestPrices (OrderBookVector_AddOrder emptyVectorBook 1 Bid 100 50) \<noteq> (100, 0)
 \<and> OrderBookVectorEfficient_GetBestPrices (OrderBookVectorEfficient_AddOrder emptyVectorBook 1 Bid 100 50) \<noteq> (100, 0)
 \<and> OrderBookVectorBranchless_GetBestPrices (OrderBookVectorBranchless_AddOrder emptyVectorBook 1 Bid 100 50) \<noteq> (100, 0)
 \<and> OrderBookVectorLinear_GetBestPrices (OrderBookVectorLinear_AddOrder emptyVectorBook 1 Bid 100 50) \<noteq> (100, 0)"
  by (simp add: book_defs)

text \<open>
  C2, amended. On a new book \<^verbatim>\<open>GetBestPrices\<close> returns (0, 0), and after the single
  call \<^verbatim>\<open>AddOrder(1, Bid, 100, 50)\<close> it still returns (0, 0), because the ask side is
  empty: the bid component is reported only once both sides hold a level. After a
  first ask is added as well (\<^verbatim>\<open>AddOrder(2, Ask, 150, 30)\<close>) the result is (100, 150).
  This holds for each of the five classes.
\<close>

theorem C2_best_prices_of_new_book_and_first_bid:
  "OrderBookMap_GetBestPrices emptyOrderBookMap = (0, 0)
 \<and> OrderBookVector_GetBestPrices emptyVectorBook = (0, 0)
 \<and> OrderBookVectorEfficient_GetBestPrices emptyVectorBook = (0, 0)
 \<and> OrderBookVectorBranchless_GetBestPrices emptyVectorBook = (0, 0)
 \<and> OrderBookVectorLinear_GetBestPrices emptyVectorBook = (0, 0)
 \<and> OrderBookMap_GetBestPrices (OrderBookMap_AddOrder emptyOrderBookMap 1 Bid 100 50) = (0, 0)
 \<and> OrderBookVector_GetBestPrices (OrderBookVector_AddOrder emptyVectorBook 1 Bid 100 50) = (0, 0)
 \<and> OrderBookVectorEfficient_GetBestPrices (OrderBookVectorEfficient_AddOrder emptyVectorBook 1 Bid 100 50) = (0, 0)
 \<and> OrderBookVectorBranchless_GetBestPrices (OrderBookVectorBranchless_AddOrder emptyVectorBook 1 Bid 100 50) = (0, 0)
 \<and> OrderBookVectorLinear_GetBestPrices (OrderBookVectorLinear_AddOrder emptyVectorBook 1 Bid 100 50) = (0, 0)
 \<and> OrderBookMap_GetBestPrices
      (OrderBookMap_AddOrder (OrderBookMap_AddOrder emptyOrderBookMap 1 Bid 100 50) 2 Ask 150 30) = (100, 150)
 \<and> OrderBookVector_GetBestPrices
      (OrderBookVector_AddOrder (OrderBookVector_AddOrder emptyVectorBook 1 Bid 100 50) 2 Ask 150 30) = (100, 150)
 \<and> OrderBookVectorEfficient_GetBestPrices
      (OrderBookVectorEfficient_AddOrder (OrderBookVectorEfficient_AddOrder emptyVectorBook 1 Bid 100 50) 2 Ask 150 30) = (100, 150)
 \<and> OrderBookVectorBranchless_GetBestPrices
      (OrderBookVectorBranchless_AddOrder (OrderBookVectorBranchless_AddOrder emptyVectorBook 1 Bid 100 50) 2 Ask 150 30) = (100, 150)
 \<and> OrderBookVectorLinear_GetBestPrices
      (OrderBookVectorLinear_AddOrder (OrderBookVectorLinear_AddOrder emptyVectorBook 1 Bid 100 50) 2 Ask 150 30) = (100, 150)"
  by (simp add: book_defs)

section \<open>Calls that change nothing\<close>

text \<open>
  C10. \<^verbatim>\<open>AddOrder\<close> with an id that is in the registry, and \<^verbatim>\<open>ModifyOrder\<close> and
  \<^verbatim>\<open>DeleteOrder\<close> with an id that is not, return the book they were given: both
  level stores and the registry are unchanged (for the tree book the call is
  defined and returns the same book). This holds for each of the five classes.
\<close>

theorem C10_calls_that_leave_the_book_unchanged:
  "(mOrders b i \<noteq> None \<longrightarrow>
      OrderBookVector_AddOrder b i sd pr vol = b
    \<and> OrderBookVectorEfficient_AddOrder b i sd pr vol = b
    \<and> OrderBookVectorBranchless_AddOrder b i sd pr vol = b
    \<and> OrderBookVectorLinear_AddOrder b i sd pr vol = b)
 \<and> (mOrders b j = None \<longrightarrow>
      OrderBookVector_ModifyOrder b j vol = b
    \<and> OrderBookVectorEfficient_ModifyOrder b j vol = b
    \<and> OrderBookVectorBranchless_ModifyOrder b j vol = b
    \<and> OrderBookVectorLinear_ModifyOrder b j vol = b
    \<and> OrderBookVector_DeleteOrder b j = b
    \<and> OrderBookVectorEfficient_DeleteOrder b j = b
    \<and> OrderBookVectorBranchless_DeleteOrder b j = b
    \<and> OrderBookVectorLinear_DeleteOrder b j = b)
 \<and> (mOrdersMap m i \<noteq> None \<longrightarrow> OrderBookMap_AddOrder m i sd pr vol = m)
 \<and> (mOrdersMap m j = None \<longrightarrow>
      OrderBookMap_ModifyOrder m j vol = Some m \<and> OrderBookMap_DeleteOrder m j = Some m)"
  by (simp add: OrderBookVector_AddOrder_def OrderBookVector_ModifyOrder_def OrderBookVector_DeleteOrder_def
      OrderBookVectorEfficient_AddOrder_def OrderBookVectorEfficient_ModifyOrder_def
      OrderBookVectorEfficient_DeleteOrder_def
      OrderBookVectorBranchless_AddOrder_def OrderBookVectorBranchless_ModifyOrder_def
      OrderBookVectorBranchless_DeleteOrder_def
      OrderBookVectorLinear_AddOrder_def OrderBookVectorLinear_ModifyOrder_def
      OrderBookVectorLinear_DeleteOrder_def
      OrderBookMap_AddOrder_def OrderBookMap_ModifyOrder_def OrderBookMap_DeleteOrder_def
      AddOrder_bs_def ModifyOrder_bs_def DeleteOrder_bs_def)

theorem C10_unchanged_witness:
  "mOrders (OrderBookVector_AddOrder emptyVectorBook 1 Bid 100 50) 1 \<noteq> None
 \<and> mOrders (OrderBookVector_AddOrder emptyVectorBook 1 Bid 100 50) 2 = None
 \<and> OrderBookVector_AddOrder (OrderBookVector_AddOrder emptyVectorBook 1 Bid 100 50) 1 Ask 7 9
     = OrderBookVector_AddOrder emptyVectorBook 1 Bid 100 50
 \<and> OrderBookVectorLinear_ModifyOrder (OrderBookVector_AddOrder emptyVectorBook 1 Bid 100 50) 2 9
     = OrderBookVector_AddOrder emptyVectorBook 1 Bid 100 50
 \<and> OrderBookVectorBranchless_DeleteOrder (OrderBookVector_AddOrder emptyVectorBook 1 Bid 100 50) 2
     = OrderBookVector_AddOrder emptyVectorBook 1 Bid 100 50
 \<and> mOrdersMap (OrderBookMap_AddOrder emptyOrderBookMap 1 Bid 100 50) 1 \<noteq> None
 \<and> mOrdersMap (OrderBookMap_AddOrder emptyOrderBookMap 1 Bid 100 50) 2 = None
 \<and> OrderBookMap_AddOrder (OrderBookMap_AddOrder emptyOrderBookMap 1 Bid 100 50) 1 Ask 7 9
     = OrderBookMap_AddOrder emptyOrderBookMap 1 Bid 100 50
 \<and> OrderBookMap_ModifyOrder (OrderBookMap_AddOrder emptyOrderBookMap 1 Bid 100 50) 2 9
     = Some (OrderBookMap_AddOrder emptyOrderBookMap 1 Bid 100 50)
 \<and> OrderBookMap_DeleteOrder (OrderBookMap_AddOrder emptyOrderBookMap 1 Bid 100 50) 2
     = Some (OrderBookMap_AddOrder emptyOrderBookMap 1 Bid 100 50)"
  using C10_calls_that_leave_the_book_unchanged
    [of "OrderBookVector_AddOrder emptyVectorBook 1 Bid 100 50" 1 Ask 7 9 2
        "OrderBookMap_AddOrder emptyOrderBookMap 1 Bid 100 50"]
  by (simp add: book_defs)
section \<open>The branchless search\<close>

text \<open>
  C9. On every array that is sorted under a transitive comparator (every later
  element is after every earlier one), \<^verbatim>\<open>branchless_lower_bound\<close> returns the position
  \<^verbatim>\<open>std::lower_bound\<close> returns, for every probe value. On every book whose arrays are
  sorted, a call on \<^verbatim>\<open>OrderBookVectorBranchless\<close> yields the book the same call on
  \<^verbatim>\<open>OrderBookVectorEfficient\<close> yields; so after every sequence of calls on a new book
  the two books are equal, and so are their best prices.
\<close>

theorem C9_branchless_search_agrees_with_lower_bound:
  "(transp R \<and> sorted_wrt R xs \<longrightarrow> branchless_lower_bound xs v R = lower_bound xs v R)
 \<and> (sorted_book (<) (>) b \<longrightarrow> step_Branchless b x = step_Efficient b x)
 \<and> run_Branchless ops = run_Efficient ops
 \<and> OrderBookVectorBranchless_GetBestPrices (run_Branchless ops)
     = OrderBookVectorEfficient_GetBestPrices (run_Efficient ops)"
proof -
  have 1: "transp R \<and> sorted_wrt R xs \<longrightarrow> branchless_lower_bound xs v R = lower_bound xs v R"
    by (simp add: branchless_lower_bound_sorted lower_bound_sorted)
  have 2: "sorted_book (<) (>) b \<longrightarrow> step_Branchless b x = step_Efficient b x"
    by (simp add: step_Branchless_bs step_Efficient_bs step_bs_branchless step_bs_lower_bound)
  have 3: "run_Branchless ops = run_Efficient ops"
    by (simp add: run_Branchless_facts(3) run_Efficient_facts(3))
  have 4: "OrderBookVectorBranchless_GetBestPrices (run_Branchless ops)
     = OrderBookVectorEfficient_GetBestPrices (run_Efficient ops)"
    by (simp add: 3 OrderBookVectorBranchless_GetBestPrices_def OrderBookVectorEfficient_GetBestPrices_def)
  show ?thesis using 1 2 3 4 by blast
qed

theorem C9_branchless_witness:
  "transp ((<) :: int \<Rightarrow> int \<Rightarrow> bool) \<and> sorted_wrt (<) [1, 3, 5, 7, 9 :: int]
 \<and> branchless_lower_bound [1, 3, 5, 7, 9 :: int] 6 (<) = 3
 \<and> lower_bound [1, 3, 5, 7, 9 :: int] 6 (<) = 3
 \<and> sorted_book (<) (>) (run_Efficient [Add 1 Bid 100 50, Add 2 Bid 105 30, Add 4 Ask 150 30])
 \<and> step_Branchless (run_Efficient [Add 1 Bid 100 50, Add 2 Bid 105 30, Add 4 Ask 150 30]) (Add 3 Bid 95 10)
   = step_Efficient (run_Efficient [Add 1 Bid 100 50, Add 2 Bid 105 30, Add 4 Ask 150 30]) (Add 3 Bid 95 10)"
proof -
  have t: "transp ((<) :: int \<Rightarrow> int \<Rightarrow> bool)" by simp
  have s: "sorted_wrt (<) [1, 3, 5, 7, 9 :: int]" by simp
  have l: "lower_bound [1, 3, 5, 7, 9 :: int] 6 (<) = 3"
    by (simp add: lower_bound_def lower_bound_loop.simps)
  have sb: "sorted_book (<) (>) (run_Efficient [Add 1 Bid 100 50, Add 2 Bid 105 30, Add 4 Ask 150 30])"
    by (rule run_Efficient_facts(1))
  show ?thesis
    using C9_branchless_search_agrees_with_lower_bound
      [of "(<)" "[1, 3, 5, 7, 9 :: int]" 6
          "run_Efficient [Add 1 Bid 100 50, Add 2 Bid 105 30, Add 4 Ask 150 30]" "Add 3 Bid 95 10" "[]"]
      t s l sb
    by simp
qed

section \<open>Best prices of books with levels on both sides\<close>

text \<open>
  C5. After every sequence of calls on a new book, when both sides hold at least
  one level, \<^verbatim>\<open>GetBestPrices\<close> returns the pair of the maximum of the bid prices and
  the minimum of the ask prices: \<^verbatim>\<open>OrderBookVector\<close> and \<^verbatim>\<open>OrderBookMap\<close> read it at
  the front of descending bids and ascending asks, the other three classes at the
  back of ascending bids and descending asks. For the tree book the statement is
  about every book a sequence of calls ends in.
\<close>

theorem C5_best_prices_are_highest_bid_and_lowest_ask:
  "(mBidLevels (run_Vector ops) \<noteq> [] \<and> mAskLevels (run_Vector ops) \<noteq> [] \<longrightarrow>
      OrderBookVector_GetBestPrices (run_Vector ops) =
        (Max (price ` set (mBidLevels (run_Vector ops))), Min (price ` set (mAskLevels (run_Vector ops)))))
 \<and> (mBidLevels (run_Efficient ops) \<noteq> [] \<and> mAskLevels (run_Efficient ops) \<noteq> [] \<longrightarrow>
      OrderBookVectorEfficient_GetBestPrices (run_Efficient ops) =
        (Max (price ` set (mBidLevels (run_Efficient ops))), Min (price ` set (mAskLevels (run_Efficient ops)))))
 \<and> (mBidLevels (run_Branchless ops) \<noteq> [] \<and> mAskLevels (run_Branchless ops) \<noteq> [] \<longrightarrow>
      OrderBookVectorBranchless_GetBestPrices (run_Branchless ops) =
        (Max (price ` set (mBidLevels (run_Branchless ops))), Min (price ` set (mAskLevels (run_Branchless ops)))))
 \<and> (mBidLevels (run_Linear ops) \<noteq> [] \<and> mAskLevels (run_Linear ops) \<noteq> [] \<longrightarrow>
      OrderBookVectorLinear_GetBestPrices (run_Linear ops) =
        (Max (price ` set (mBidLevels (run_Linear ops))), Min (price ` set (mAskLevels (run_Linear ops)))))
 \<and> (run_Map ops = Some m \<and> mBidLevelsMap m \<noteq> [] \<and> mAskLevelsMap m \<noteq> [] \<longrightarrow>
      OrderBookMap_GetBestPrices m =
        (Max (first ` set (mBidLevelsMap m)), Min (first ` set (mAskLevelsMap m))))"
proof (intro conjI impI)
  show "OrderBookVector_GetBestPrices (run_Vector ops) =
        (Max (price ` set (mBidLevels (run_Vector ops))), Min (price ` set (mAskLevels (run_Vector ops))))"
    if "mBidLevels (run_Vector ops) \<noteq> [] \<and> mAskLevels (run_Vector ops) \<noteq> []"
    using that GetBestPrices_front_sorted[OF run_Vector_facts(1), of ops]
    by (simp add: OrderBookVector_GetBestPrices_def)
  show "OrderBookVectorEfficient_GetBestPrices (run_Efficient ops) =
        (Max (price ` set (mBidLevels (run_Efficient ops))), Min (price ` set (mAskLevels (run_Efficient ops))))"
    if "mBidLevels (run_Efficient ops) \<noteq> [] \<and> mAskLevels (run_Efficient ops) \<noteq> []"
    using that GetBestPrices_back_sorted[OF run_Efficient_facts(1), of ops]
    by (simp add: OrderBookVectorEfficient_GetBestPrices_def)
  show "OrderBookVectorBranchless_GetBestPrices (run_Branchless ops) =
        (Max (price ` set (mBidLevels (run_Branchless ops))), Min (price ` set (mAskLevels (run_Branchless ops))))"
    if "mBidLevels (run_Branchless ops) \<noteq> [] \<and> mAskLevels (run_Branchless ops) \<noteq> []"
    using that GetBestPrices_back_sorted[OF run_Branchless_facts(1), of ops]
    by (simp add: OrderBookVectorBranchless_GetBestPrices_def)
  show "OrderBookVectorLinear_GetBestPrices (run_Linear ops) =
        (Max (price ` set (mBidLevels (run_Linear ops))), Min (price ` set (mAskLevels (run_Linear ops))))"
    if "mBidLevels (run_Linear ops) \<noteq> [] \<and> mAskLevels (run_Linear ops) \<noteq> []"
    using that GetBestPrices_back_sorted[OF run_Linear_facts(1), of ops]
    by (simp add: OrderBookVectorLinear_GetBestPrices_def)
  show "OrderBookMap_GetBestPrices m =
        (Max (first ` set (mBidLevelsMap m)), Min (first ` set (mAskLevelsMap m)))"
    if "run_Map ops = Some m \<and> mBidLevelsMap m \<noteq> [] \<and> mAskLevelsMap m \<noteq> []"
    using that GetBestPrices_Map_sorted[OF run_Map_facts(1), of ops m] by simp
qed

theorem C5_best_prices_witness:
  "mBidLevels (run_Vector [Add 1 Bid 100 50, Add 2 Bid 105 30, Add 3 Bid 95 10, Add 4 Ask 150 30, Add 5 Ask 140 5]) \<noteq> [] \<and> mAskLevels (run_Vector [Add 1 Bid 100 50, Add 2 Bid 105 30, Add 3 Bid 95 10, Add 4 Ask 150 30, Add 5 Ask 140 5]) \<noteq> []
 \<and> mBidLevels (run_Efficient [Add 1 Bid 100 50, Add 2 Bid 105 30, Add 3 Bid 95 10, Add 4 Ask 150 30, Add 5 Ask 140 5]) \<noteq> [] \<and> mAskLevels (run_Efficient [Add 1 Bid 100 50, Add 2 Bid 105 30, Add 3 Bid 95 10, Add 4 Ask 150 30, Add 5 Ask 140 5]) \<noteq> []
 \<and> mBidLevels (run_Branchless [Add 1 Bid 100 50, Add 2 Bid 105 30, Add 3 Bid 95 10, Add 4 Ask 150 30, Add 5 Ask 140 5]) \<noteq> [] \<and> mAskLevels (run_Branchless [Add 1 Bid 100 50, Add 2 Bid 105 30, Add 3 Bid 95 10, Add 4 Ask 150 30, Add 5 Ask 140 5]) \<noteq> []
 \<and> mBidLevels (run_Linear [Add 1 Bid 100 50, Add 2 Bid 105 30, Add 3 Bid 95 10, Add 4 Ask 150 30, Add 5 Ask 140 5]) \<noteq> [] \<and> mAskLevels (run_Linear [Add 1 Bid 100 50, Add 2 Bid 105 30, Add 3 Bid 95 10, Add 4 Ask 150 30, Add 5 Ask 140 5]) \<noteq> []
 \<and> run_Map [Add 1 Bid 100 50, Add 2 Bid 105 30, Add 3 Bid 95 10, Add 4 Ask 150 30, Add 5 Ask 140 5] = Some (the (run_Map [Add 1 Bid 100 50, Add 2 Bid 105 30, Add 3 Bid 95 10, Add 4 Ask 150 30, Add 5 Ask 140 5]))
 \<and> mBidLevelsMap (the (run_Map [Add 1 Bid 100 50, Add 2 Bid 105 30, Add 3 Bid 95 10, Add 4 Ask 150 30, Add 5 Ask 140 5])) \<noteq> [] \<and> mAskLevelsMap (the (run_Map [Add 1 Bid 100 50, Add 2 Bid 105 30, Add 3 Bid 95 10, Add 4 Ask 150 30, Add 5 Ask 140 5])) \<noteq> []
 \<and> OrderBookVector_GetBestPrices (run_Vector [Add 1 Bid 100 50, Add 2 Bid 105 30, Add 3 Bid 95 10, Add 4 Ask 150 30, Add 5 Ask 140 5]) = (105, 140)
 \<and> OrderBookVectorEfficient_GetBestPrices (run_Efficient [Add 1 Bid 100 50, Add 2 Bid 105 30, Add 3 Bid 95 10, Add 4 Ask 150 30, Add 5 Ask 140 5]) = (105, 140)
 \<and> OrderBookVectorBranchless_GetBestPrices (run_Branchless [Add 1 Bid 100 50, Add 2 Bid 105 30, Add 3 Bid 95 10, Add 4 Ask 150 30, Add 5 Ask 140 5]) = (105, 140)
 \<and> OrderBookVectorLinear_GetBestPrices (run_Linear [Add 1 Bid 100 50, Add 2 Bid 105 30, Add 3 Bid 95 10, Add 4 Ask 150 30, Add 5 Ask 140 5]) = (105, 140)
 \<and> OrderBookMap_GetBestPrices (the (run_Map [Add 1 Bid 100 50, Add 2 Bid 105 30, Add 3 Bid 95 10, Add 4 Ask 150 30, Add 5 Ask 140 5])) = (105, 140)
 \<and> Max (price ` set (mBidLevels (run_Efficient [Add 1 Bid 100 50, Add 2 Bid 105 30, Add 3 Bid 95 10, Add 4 Ask 150 30, Add 5 Ask 140 5]))) = 105
 \<and> Min (price ` set (mAskLevels (run_Efficient [Add 1 Bid 100 50, Add 2 Bid 105 30, Add 3 Bid 95 10, Add 4 Ask 150 30, Add 5 Ask 140 5]))) = 140"
  using C5_best_prices_are_highest_bid_and_lowest_ask [of "[Add 1 Bid 100 50, Add 2 Bid 105 30, Add 3 Bid 95 10, Add 4 Ask 150 30, Add 5 Ask 140 5]" "the (run_Map [Add 1 Bid 100 50, Add 2 Bid 105 30, Add 3 Bid 95 10, Add 4 Ask 150 30, Add 5 Ask 140 5])"]
  by (simp add: book_defs)

section \<open>Levels with a volume that is not positive\<close>

text \<open>
  C7, as the claim states it, fails: \<^verbatim>\<open>AddOrder\<close> with volume 0 (or a negative volume)
  at a new price creates a level with that volume, which stays in the book. No
  class tests the volume in \<^verbatim>\<open>AddOrder\<close>.
\<close>

theorem C7_zero_volume_add_counterexample:
  "mBidLevels (OrderBookVector_AddOrder emptyVectorBook 1 Bid 100 0) = [\<lparr>price = 100, volume = 0\<rparr>]
 \<and> mBidLevels (OrderBookVectorEfficient_AddOrder emptyVectorBook 1 Bid 100 0) = [\<lparr>price = 100, volume = 0\<rparr>]
 \<and> mBidLevels (OrderBookVectorBranchless_AddOrder emptyVectorBook 1 Bid 100 0) = [\<lparr>price = 100, volume = 0\<rparr>]
 \<and> mBidLevels (OrderBookVectorLinear_AddOrder emptyVectorBook 1 Bid 100 0) = [\<lparr>price = 100, volume = 0\<rparr>]
 \<and> mBidLevelsMap (OrderBookMap_AddOrder emptyOrderBookMap 1 Bid 100 0) = [\<lparr>node = 0, first = 100, second = 0\<rparr>]
 \<and> mAskLevels (OrderBookVector_AddOrder emptyVectorBook 1 Ask 100 (- 5)) = [\<lparr>price = 100, volume = - 5\<rparr>]"
  by (simp add: book_defs)

text \<open>
  C7, amended. Take a sequence of calls in which every \<^verbatim>\<open>AddOrder\<close> has a volume
  greater than 0 (the volumes of \<^verbatim>\<open>ModifyOrder\<close> are arbitrary) and whose volumes are
  small enough for every \<^verbatim>\<open>int64_t\<close> sum to stay in range (\<open>small_volumes\<close>: twice the
  largest absolute volume times the number of calls is below \<open>2^63\<close>). After the
  sequence no level with a volume of 0 or less is in either side of any of the four
  array-backed books: \<^verbatim>\<open>ModifyOrder\<close> and \<^verbatim>\<open>DeleteOrder\<close> remove a level in the call
  that makes its volume 0 or less. For the tree book the same holds of the book the
  sequence ends in, when it ends in one: a call of the tree book that goes through
  the iterator of an erased level has no defined result, and such calls exist in
  sequences with positive \<^verbatim>\<open>AddOrder\<close> volumes (see \<open>tree_book_undefined_run\<close> below).
  When the volumes of \<^verbatim>\<open>ModifyOrder\<close> are greater than 0 as well, the sequence does end
  in a book of the tree class.
\<close>

theorem C7_no_nonpositive_level_after_positive_adds:
  "(\<forall>x\<in>set ops. positive_add x) \<and> small_volumes ops \<longrightarrow>
     (\<forall>l\<in>set (mBidLevels (run_Vector ops)) \<union> set (mAskLevels (run_Vector ops)). 0 < volume l)
   \<and> (\<forall>l\<in>set (mBidLevels (run_Efficient ops)) \<union> set (mAskLevels (run_Efficient ops)). 0 < volume l)
   \<and> (\<forall>l\<in>set (mBidLevels (run_Branchless ops)) \<union> set (mAskLevels (run_Branchless ops)). 0 < volume l)
   \<and> (\<forall>l\<in>set (mBidLevels (run_Linear ops)) \<union> set (mAskLevels (run_Linear ops)). 0 < volume l)
   \<and> (\<forall>m. run_Map ops = Some m \<longrightarrow>
         (\<forall>n\<in>set (mBidLevelsMap m) \<union> set (mAskLevelsMap m). 0 < second n))
   \<and> ((\<forall>x\<in>set ops. positive_volume x) \<longrightarrow> run_Map ops \<noteq> None)"
proof (intro impI)
  assume h: "(\<forall>x\<in>set ops. positive_add x) \<and> small_volumes ops"
  then have p: "\<forall>x\<in>set ops. positive_add x" and s: "small_volumes ops" by simp_all
  have ap: "a_pos (w_run ops)" using a_run_pos[OF p] small_volumes_run(1)[OF s] by simp
  show "(\<forall>l\<in>set (mBidLevels (run_Vector ops)) \<union> set (mAskLevels (run_Vector ops)). 0 < volume l)
   \<and> (\<forall>l\<in>set (mBidLevels (run_Efficient ops)) \<union> set (mAskLevels (run_Efficient ops)). 0 < volume l)
   \<and> (\<forall>l\<in>set (mBidLevels (run_Branchless ops)) \<union> set (mAskLevels (run_Branchless ops)). 0 < volume l)
   \<and> (\<forall>l\<in>set (mBidLevels (run_Linear ops)) \<union> set (mAskLevels (run_Linear ops)). 0 < volume l)
   \<and> (\<forall>m. run_Map ops = Some m \<longrightarrow>
         (\<forall>n\<in>set (mBidLevelsMap m) \<union> set (mAskLevelsMap m). 0 < second n))
   \<and> ((\<forall>x\<in>set ops. positive_volume x) \<longrightarrow> run_Map ops \<noteq> None)"
  proof (intro impI conjI allI ballI)
    show "run_Map ops \<noteq> None" if "\<forall>x\<in>set ops. positive_volume x"
      using run_Map_defined[OF that s] by auto
    show "0 < volume l" if "l \<in> set (mBidLevels (run_Vector ops)) \<union> set (mAskLevels (run_Vector ops))" for l
      using that levels_positive[OF _ _ run_Vector_facts(1), of ops l] ap by (simp add: run_Vector_facts(2))
    show "0 < volume l" if "l \<in> set (mBidLevels (run_Efficient ops)) \<union> set (mAskLevels (run_Efficient ops))" for l
      using that levels_positive[OF _ _ run_Efficient_facts(1), of ops l] ap by (simp add: run_Efficient_facts(2))
    show "0 < volume l" if "l \<in> set (mBidLevels (run_Branchless ops)) \<union> set (mAskLevels (run_Branchless ops))" for l
      using that levels_positive[OF _ _ run_Branchless_facts(1), of ops l] ap by (simp add: run_Branchless_facts(2))
    show "0 < volume l" if "l \<in> set (mBidLevels (run_Linear ops)) \<union> set (mAskLevels (run_Linear ops))" for l
      using that levels_positive[OF _ _ run_Linear_facts(1), of ops l] ap by (simp add: run_Linear_facts(2))
    show "0 < second n" if "run_Map ops = Some m" "n \<in> set (mBidLevelsMap m) \<union> set (mAskLevelsMap m)" for m n
      using nodes_positive[OF run_Map_facts(1)[OF that(1)] _ that(2)] ap run_Map_facts(2)[OF that(1)] by simp
  qed
qed

theorem C7_positive_adds_witness:
  "list_all positive_add [Add 1 Bid 100 50, Add 2 Ask 150 30, Modify 1 20, Add 3 Bid 100 5, Delete 2] \<and> list_all positive_volume [Add 1 Bid 100 50, Add 2 Ask 150 30, Modify 1 20, Add 3 Bid 100 5, Delete 2] \<and> small_volumes [Add 1 Bid 100 50, Add 2 Ask 150 30, Modify 1 20, Add 3 Bid 100 5, Delete 2]
 \<and> mBidLevels (run_Vector [Add 1 Bid 100 50, Add 2 Ask 150 30, Modify 1 20, Add 3 Bid 100 5, Delete 2]) = [\<lparr>price = 100, volume = 25\<rparr>]
 \<and> list_all (\<lambda>l. 0 < volume l) (mBidLevels (run_Vector [Add 1 Bid 100 50, Add 2 Ask 150 30, Modify 1 20, Add 3 Bid 100 5, Delete 2]) @ mAskLevels (run_Vector [Add 1 Bid 100 50, Add 2 Ask 150 30, Modify 1 20, Add 3 Bid 100 5, Delete 2]))
 \<and> list_all (\<lambda>l. 0 < volume l) (mBidLevels (run_Efficient [Add 1 Bid 100 50, Add 2 Ask 150 30, Modify 1 20, Add 3 Bid 100 5, Delete 2]) @ mAskLevels (run_Efficient [Add 1 Bid 100 50, Add 2 Ask 150 30, Modify 1 20, Add 3 Bid 100 5, Delete 2]))
 \<and> list_all (\<lambda>l. 0 < volume l) (mBidLevels (run_Branchless [Add 1 Bid 100 50, Add 2 Ask 150 30, Modify 1 20, Add 3 Bid 100 5, Delete 2]) @ mAskLevels (run_Branchless [Add 1 Bid 100 50, Add 2 Ask 150 30, Modify 1 20, Add 3 Bid 100 5, Delete 2]))
 \<and> list_all (\<lambda>l. 0 < volume l) (mBidLevels (run_Linear [Add 1 Bid 100 50, Add 2 Ask 150 30, Modify 1 20, Add 3 Bid 100 5, Delete 2]) @ mAskLevels (run_Linear [Add 1 Bid 100 50, Add 2 Ask 150 30, Modify 1 20, Add 3 Bid 100 5, Delete 2]))
 \<and> run_Map [Add 1 Bid 100 50, Add 2 Ask 150 30, Modify 1 20, Add 3 Bid 100 5, Delete 2] \<noteq> None
 \<and> list_all (\<lambda>n. 0 < second n) (mBidLevelsMap (the (run_Map [Add 1 Bid 100 50, Add 2 Ask 150 30, Modify 1 20, Add 3 Bid 100 5, Delete 2])) @ mAskLevelsMap (the (run_Map [Add 1 Bid 100 50, Add 2 Ask 150 30, Modify 1 20, Add 3 Bid 100 5, Delete 2])))
 \<and> list_all positive_add [Add 1 Bid 100 50, Add 3 Bid 100 5, Modify 3 (- 4)] \<and> small_volumes [Add 1 Bid 100 50, Add 3 Bid 100 5, Modify 3 (- 4)]
 \<and> mBidLevels (run_Linear [Add 1 Bid 100 50, Add 3 Bid 100 5, Modify 3 (- 4)]) = [\<lparr>price = 100, volume = 46\<rparr>]
 \<and> list_all (\<lambda>l. 0 < volume l) (mBidLevels (run_Linear [Add 1 Bid 100 50, Add 3 Bid 100 5, Modify 3 (- 4)]) @ mAskLevels (run_Linear [Add 1 Bid 100 50, Add 3 Bid 100 5, Modify 3 (- 4)]))
 \<and> map_option mBidLevelsMap (run_Map [Add 1 Bid 100 50, Add 3 Bid 100 5, Modify 3 (- 4)]) = Some [\<lparr>node = 0, first = 100, second = 46\<rparr>]"
  using C7_no_nonpositive_level_after_positive_adds [of "[Add 1 Bid 100 50, Add 2 Ask 150 30, Modify 1 20, Add 3 Bid 100 5, Delete 2]"]
    C7_no_nonpositive_level_after_positive_adds [of "[Add 1 Bid 100 50, Add 3 Bid 100 5, Modify 3 (- 4)]"]
  by (simp add: book_defs)

text \<open>
  A sequence with positive \<^verbatim>\<open>AddOrder\<close> volumes that the tree book does not survive:
  the first \<^verbatim>\<open>ModifyOrder\<close> erases the level of both orders and order 1; order 2 keeps
  the iterator to the erased node, which the second \<^verbatim>\<open>ModifyOrder\<close> dereferences. The
  array-backed books search for the price of order 2, find no level, and return.
\<close>

lemma tree_book_undefined_run:
  "list_all positive_add [Add 1 Bid 100 50, Add 2 Bid 100 30, Modify 1 (- 100), Modify 2 10]
 \<and> small_volumes [Add 1 Bid 100 50, Add 2 Bid 100 30, Modify 1 (- 100), Modify 2 10]
 \<and> run_Map [Add 1 Bid 100 50, Add 2 Bid 100 30, Modify 1 (- 100), Modify 2 10] = None
 \<and> mBidLevels (run_Vector [Add 1 Bid 100 50, Add 2 Bid 100 30, Modify 1 (- 100), Modify 2 10]) = []
 \<and> mOrders (run_Vector [Add 1 Bid 100 50, Add 2 Bid 100 30, Modify 1 (- 100), Modify 2 10]) 2
     = Some \<lparr>oside = Bid, oprice = 100, originalVolume = 30\<rparr>"
  by (simp add: book_defs)

text \<open>
  Two \<^verbatim>\<open>AddOrder\<close> calls with positive volumes whose sum leaves the range of
  \<^verbatim>\<open>int64_t\<close>: the level then holds \<open>-2^63\<close>, and \<^verbatim>\<open>AddOrder\<close> has no test that would
  remove it. The bound on the volumes excludes such sequences.
\<close>

lemma positive_adds_that_overflow:
  "list_all positive_add [Add 1 Bid 100 9223372036854775807, Add 2 Bid 100 1]
 \<and> \<not> small_volumes [Add 1 Bid 100 9223372036854775807, Add 2 Bid 100 1]
 \<and> mBidLevels (run_Vector [Add 1 Bid 100 9223372036854775807, Add 2 Bid 100 1])
     = [\<lparr>price = 100, volume = - 9223372036854775808\<rparr>]
 \<and> map_option (\<lambda>m. map second (mBidLevelsMap m)) (run_Map [Add 1 Bid 100 9223372036854775807, Add 2 Bid 100 1])
     = Some [- 9223372036854775808]"
  by (simp add: book_defs)

section \<open>Orders with a volume that is not positive\<close>

text \<open>
  C8, as the claim states it, fails: with two orders at one price,
  \<^verbatim>\<open>ModifyOrder(1, 0)\<close> leaves the level at volume 30, so the test of the level's
  volume does not remove order 1, which stays in the registry with volume 0.
\<close>

theorem C8_zero_volume_order_counterexample:
  "mOrders (run_Vector [Add 1 Bid 100 50, Add 2 Bid 100 30, Modify 1 0]) 1 = Some \<lparr>oside = Bid, oprice = 100, originalVolume = 0\<rparr>
 \<and> mOrders (run_Efficient [Add 1 Bid 100 50, Add 2 Bid 100 30, Modify 1 0]) 1 = Some \<lparr>oside = Bid, oprice = 100, originalVolume = 0\<rparr>
 \<and> mOrders (run_Branchless [Add 1 Bid 100 50, Add 2 Bid 100 30, Modify 1 0]) 1 = Some \<lparr>oside = Bid, oprice = 100, originalVolume = 0\<rparr>
 \<and> mOrders (run_Linear [Add 1 Bid 100 50, Add 2 Bid 100 30, Modify 1 0]) 1 = Some \<lparr>oside = Bid, oprice = 100, originalVolume = 0\<rparr>
 \<and> map_option (\<lambda>m. map_option originalVolume (mOrdersMap m 1)) (run_Map [Add 1 Bid 100 50, Add 2 Bid 100 30, Modify 1 0]) = Some (Some 0)
 \<and> mBidLevels (run_Vector [Add 1 Bid 100 50, Add 2 Bid 100 30, Modify 1 0]) = [\<lparr>price = 100, volume = 30\<rparr>]"
  by (simp add: book_defs)

text \<open>
  C8, amended. \<^verbatim>\<open>ModifyOrder\<close> tests the volume of the order's level, not the volume
  of the order. Take any sequence of calls followed by \<^verbatim>\<open>ModifyOrder(i, nv)\<close>, with
  volumes small enough for every \<^verbatim>\<open>int64_t\<close> sum to stay in range (\<open>small_volumes\<close>),
  where order \<open>i\<close> is registered after the sequence and a level with its price is in
  its side, with volume \<open>x\<close> (for the tree book: the sequence ends in a book and the
  order's iterator points to a node, with volume \<open>x\<close>). Then the call removes the
  order exactly when \<open>x + (nv - remaining volume of i)\<close> is 0 or less; otherwise
  order \<open>i\<close> stays registered with remaining volume \<open>nv\<close>, also when \<open>nv\<close> is 0 or
  less. Every registered order has a remaining volume greater than 0 after the
  sequences with small volumes in which every \<^verbatim>\<open>AddOrder\<close> and every \<^verbatim>\<open>ModifyOrder\<close>
  has a volume greater than 0 (such a sequence ends in a book of the tree class).
\<close>

theorem C8_modify_removes_order_when_level_is_emptied:
  "(small_volumes (ops @ [Modify i nv]) \<longrightarrow>
       modify_removes (run_Vector ops) (run_Vector (ops @ [Modify i nv])) i nv
     \<and> modify_removes (run_Efficient ops) (run_Efficient (ops @ [Modify i nv])) i nv
     \<and> modify_removes (run_Branchless ops) (run_Branchless (ops @ [Modify i nv])) i nv
     \<and> modify_removes (run_Linear ops) (run_Linear (ops @ [Modify i nv])) i nv
     \<and> modify_removes_Map (run_Map ops) (run_Map (ops @ [Modify i nv])) i nv)
 \<and> ((\<forall>x\<in>set ops. positive_volume x) \<and> small_volumes ops \<longrightarrow>
       (\<forall>j d. mOrders (run_Vector ops) j = Some d \<longrightarrow> 0 < originalVolume d)
     \<and> (\<forall>j d. mOrders (run_Efficient ops) j = Some d \<longrightarrow> 0 < originalVolume d)
     \<and> (\<forall>j d. mOrders (run_Branchless ops) j = Some d \<longrightarrow> 0 < originalVolume d)
     \<and> (\<forall>j d. mOrders (run_Linear ops) j = Some d \<longrightarrow> 0 < originalVolume d)
     \<and> (\<exists>m. run_Map ops = Some m \<and> (\<forall>j d. mOrdersMap m j = Some d \<longrightarrow> 0 < originalVolume d)))"
proof (intro conjI impI)
  assume s: "small_volumes (ops @ [Modify i nv])"
  show "modify_removes (run_Vector ops) (run_Vector (ops @ [Modify i nv])) i nv"
    by (rule modify_removes_from_effect,
        rule modify_effect_run[of "(>)" "(<)" run_Vector, OF _ _ run_Vector_facts s]) simp_all
  show "modify_removes (run_Efficient ops) (run_Efficient (ops @ [Modify i nv])) i nv"
    by (rule modify_removes_from_effect,
        rule modify_effect_run[of "(<)" "(>)" run_Efficient, OF _ _ run_Efficient_facts s]) simp_all
  show "modify_removes (run_Branchless ops) (run_Branchless (ops @ [Modify i nv])) i nv"
    by (rule modify_removes_from_effect,
        rule modify_effect_run[of "(<)" "(>)" run_Branchless, OF _ _ run_Branchless_facts s]) simp_all
  show "modify_removes (run_Linear ops) (run_Linear (ops @ [Modify i nv])) i nv"
    by (rule modify_removes_from_effect,
        rule modify_effect_run[of "(<)" "(>)" run_Linear, OF _ _ run_Linear_facts s]) simp_all
  show "modify_removes_Map (run_Map ops) (run_Map (ops @ [Modify i nv])) i nv"
    by (rule modify_removes_Map_from_effect, rule modify_effect_Map_run[OF s])
next
  assume h: "(\<forall>x\<in>set ops. positive_volume x) \<and> small_volumes ops"
  then have p: "\<forall>x\<in>set ops. positive_volume x" and s: "small_volumes ops" by simp_all
  have ap: "a_ordpos (w_run ops)" using a_run_consistent[OF p] small_volumes_run(1)[OF s] by simp
  show "\<forall>j d. mOrders (run_Vector ops) j = Some d \<longrightarrow> 0 < originalVolume d"
    using orders_positive[OF run_Vector_facts(2) ap] by blast
  show "\<forall>j d. mOrders (run_Efficient ops) j = Some d \<longrightarrow> 0 < originalVolume d"
    using orders_positive[OF run_Efficient_facts(2) ap] by blast
  show "\<forall>j d. mOrders (run_Branchless ops) j = Some d \<longrightarrow> 0 < originalVolume d"
    using orders_positive[OF run_Branchless_facts(2) ap] by blast
  show "\<forall>j d. mOrders (run_Linear ops) j = Some d \<longrightarrow> 0 < originalVolume d"
    using orders_positive[OF run_Linear_facts(2) ap] by blast
  obtain m where m: "run_Map ops = Some m" using run_Map_defined[OF p s] by blast
  have "\<forall>j d. mOrdersMap m j = Some d \<longrightarrow> 0 < originalVolume d"
    using orders_positive_Map[OF run_Map_facts(2)[OF m] ap] by blast
  then show "\<exists>m. run_Map ops = Some m \<and> (\<forall>j d. mOrdersMap m j = Some d \<longrightarrow> 0 < originalVolume d)"
    using m by blast
qed

theorem C8_modify_removes_witness:
  "small_volumes ([Add 1 Bid 100 50, Add 2 Bid 100 30] @ [Modify 1 0])
 \<and> mOrders (run_Vector [Add 1 Bid 100 50, Add 2 Bid 100 30]) 1 = Some \<lparr>oside = Bid, oprice = 100, originalVolume = 50\<rparr>
 \<and> level_at (levels_of (run_Vector [Add 1 Bid 100 50, Add 2 Bid 100 30]) Bid) 100 = Some 80
 \<and> map_option originalVolume (mOrders (run_Vector ([Add 1 Bid 100 50, Add 2 Bid 100 30] @ [Modify 1 0])) 1) = Some 0
 \<and> map_option originalVolume (mOrders (run_Efficient ([Add 1 Bid 100 50, Add 2 Bid 100 30] @ [Modify 1 0])) 1) = Some 0
 \<and> map_option originalVolume (mOrders (run_Branchless ([Add 1 Bid 100 50, Add 2 Bid 100 30] @ [Modify 1 0])) 1) = Some 0
 \<and> map_option originalVolume (mOrders (run_Linear ([Add 1 Bid 100 50, Add 2 Bid 100 30] @ [Modify 1 0])) 1) = Some 0
 \<and> map_option (\<lambda>m. map_option originalVolume (mOrdersMap m 1)) (run_Map ([Add 1 Bid 100 50, Add 2 Bid 100 30] @ [Modify 1 0])) = Some (Some 0)
 \<and> small_volumes ([Add 1 Bid 100 50, Add 2 Ask 150 30] @ [Modify 2 (- 5)])
 \<and> mOrders (run_Vector [Add 1 Bid 100 50, Add 2 Ask 150 30]) 2 = Some \<lparr>oside = Ask, oprice = 150, originalVolume = 30\<rparr>
 \<and> level_at (levels_of (run_Vector [Add 1 Bid 100 50, Add 2 Ask 150 30]) Ask) 150 = Some 30
 \<and> map_option originalVolume (mOrders (run_Vector ([Add 1 Bid 100 50, Add 2 Ask 150 30] @ [Modify 2 (- 5)])) 2) = None
 \<and> map_option originalVolume (mOrders (run_Efficient ([Add 1 Bid 100 50, Add 2 Ask 150 30] @ [Modify 2 (- 5)])) 2) = None
 \<and> map_option originalVolume (mOrders (run_Branchless ([Add 1 Bid 100 50, Add 2 Ask 150 30] @ [Modify 2 (- 5)])) 2) = None
 \<and> map_option originalVolume (mOrders (run_Linear ([Add 1 Bid 100 50, Add 2 Ask 150 30] @ [Modify 2 (- 5)])) 2) = None
 \<and> map_option (\<lambda>m. map_option originalVolume (mOrdersMap m 2)) (run_Map ([Add 1 Bid 100 50, Add 2 Ask 150 30] @ [Modify 2 (- 5)])) = Some None
 \<and> list_all positive_volume [Add 1 Bid 100 50, Add 2 Bid 100 30] \<and> small_volumes [Add 1 Bid 100 50, Add 2 Bid 100 30]
 \<and> map_option originalVolume (mOrders (run_Linear [Add 1 Bid 100 50, Add 2 Bid 100 30]) 2) = Some 30
 \<and> map_option (\<lambda>m. map_option originalVolume (mOrdersMap m 2)) (run_Map [Add 1 Bid 100 50, Add 2 Bid 100 30]) = Some (Some 30)"
  using C8_modify_removes_order_when_level_is_emptied [of "[Add 1 Bid 100 50, Add 2 Bid 100 30]" 1 0]
    C8_modify_removes_order_when_level_is_emptied [of "[Add 1 Bid 100 50, Add 2 Ask 150 30]" 2 "- 5"]
  by (simp add: book_defs level_at_def)
section \<open>Consistency of levels and registry\<close>




section \<open>The effect of \<^verbatim>\<open>ModifyOrder\<close>\<close>

text \<open>
  C6, as the claim states it for every registered order, fails for an order whose
  level is gone. After the first four calls below, order 1 is registered with
  volume 0 at price 100 and the bid side has no level. \<^verbatim>\<open>ModifyOrder(1, 7)\<close> then finds
  no level with the order's price in the array-backed books and returns: order 1 is
  neither removed nor given the volume 7. In the tree book the call goes through
  the iterator of the erased node and has no defined result.
\<close>

theorem C6_modify_of_order_without_level_counterexample:
  "mOrders (run_Vector [Add 1 Bid 100 50, Add 2 Bid 100 30, Modify 1 0, Modify 2 0]) 1 = Some \<lparr>oside = Bid, oprice = 100, originalVolume = 0\<rparr>
 \<and> mBidLevels (run_Vector [Add 1 Bid 100 50, Add 2 Bid 100 30, Modify 1 0, Modify 2 0]) = []
 \<and> mOrders (run_Vector ([Add 1 Bid 100 50, Add 2 Bid 100 30, Modify 1 0, Modify 2 0] @ [Modify 1 7])) 1 = Some \<lparr>oside = Bid, oprice = 100, originalVolume = 0\<rparr>
 \<and> mBidLevels (run_Vector ([Add 1 Bid 100 50, Add 2 Bid 100 30, Modify 1 0, Modify 2 0] @ [Modify 1 7])) = []
 \<and> mOrders (run_Efficient [Add 1 Bid 100 50, Add 2 Bid 100 30, Modify 1 0, Modify 2 0]) 1 = Some \<lparr>oside = Bid, oprice = 100, originalVolume = 0\<rparr>
 \<and> mBidLevels (run_Efficient [Add 1 Bid 100 50, Add 2 Bid 100 30, Modify 1 0, Modify 2 0]) = []
 \<and> mOrders (run_Efficient ([Add 1 Bid 100 50, Add 2 Bid 100 30, Modify 1 0, Modify 2 0] @ [Modify 1 7])) 1 = Some \<lparr>oside = Bid, oprice = 100, originalVolume = 0\<rparr>
 \<and> mBidLevels (run_Efficient ([Add 1 Bid 100 50, Add 2 Bid 100 30, Modify 1 0, Modify 2 0] @ [Modify 1 7])) = []
 \<and> mOrders (run_Branchless [Add 1 Bid 100 50, Add 2 Bid 100 30, Modify 1 0, Modify 2 0]) 1 = Some \<lparr>oside = Bid, oprice = 100, originalVolume = 0\<rparr>
 \<and> mBidLevels (run_Branchless [Add 1 Bid 100 50, Add 2 Bid 100 30, Modify 1 0, Modify 2 0]) = []
 \<and> mOrders (run_Branchless ([Add 1 Bid 100 50, Add 2 Bid 100 30, Modify 1 0, Modify 2 0] @ [Modify 1 7])) 1 = Some \<lparr>oside = Bid, oprice = 100, originalVolume = 0\<rparr>
 \<and> mBidLevels (run_Branchless ([Add 1 Bid 100 50, Add 2 Bid 100 30, Modify 1 0, Modify 2 0] @ [Modify 1 7])) = []
 \<and> mOrders (run_Linear [Add 1 Bid 100 50, Add 2 Bid 100 30, Modify 1 0, Modify 2 0]) 1 = Some \<lparr>oside = Bid, oprice = 100, originalVolume = 0\<rparr>
 \<and> mBidLevels (run_Linear [Add 1 Bid 100 50, Add 2 Bid 100 30, Modify 1 0, Modify 2 0]) = []
 \<and> mOrders (run_Linear ([Add 1 Bid 100 50, Add 2 Bid 100 30, Modify 1 0, Modify 2 0] @ [Modify 1 7])) 1 = Some \<lparr>oside = Bid, oprice = 100, originalVolume = 0\<rparr>
 \<and> mBidLevels (run_Linear ([Add 1 Bid 100 50, Add 2 Bid 100 30, Modify 1 0, Modify 2 0] @ [Modify 1 7])) = []
 \<and> map_option (\<lambda>m. map_option originalVolume (mOrdersMap m 1)) (run_Map [Add 1 Bid 100 50, Add 2 Bid 100 30, Modify 1 0, Modify 2 0]) = Some (Some 0)
 \<and> map_option mBidLevelsMap (run_Map [Add 1 Bid 100 50, Add 2 Bid 100 30, Modify 1 0, Modify 2 0]) = Some []
 \<and> run_Map ([Add 1 Bid 100 50, Add 2 Bid 100 30, Modify 1 0, Modify 2 0] @ [Modify 1 7]) = None"
  by (simp add: book_defs)

text \<open>
  C6, amended. Take any sequence of calls followed by \<^verbatim>\<open>ModifyOrder(i, nv)\<close>, with
  volumes small enough for every \<^verbatim>\<open>int64_t\<close> sum to stay in range (\<open>small_volumes\<close>), where
  order \<open>i\<close> is registered after the sequence. When a level with the order's price is
  in the order's side (for the tree book: when the sequence ends in a book and the
  order's iterator points to a node of the map), the call adds the difference
  between \<open>nv\<close> and the order's remaining volume to the volume of that level; if the
  level's volume is then 0 or less, the level and the order are removed, otherwise
  the order's remaining volume becomes \<open>nv\<close>; no other level and no other order
  changes. When no level has the order's price, the array-backed books do not
  change; when the node of the order's iterator is no longer in the map, the call
  of the tree book has no defined result. In particular,
  \<^verbatim>\<open>AddOrder(2, Ask, 150, 30)\<close> followed by \<^verbatim>\<open>ModifyOrder(2, 0)\<close> removes order 2 and the
  level at 150, and \<^verbatim>\<open>GetBestPrices\<close> then returns (0, 0), with and without a bid in the
  book.
\<close>

theorem C6_effect_of_modify_on_order_and_level:
  "(small_volumes (ops @ [Modify i nv]) \<longrightarrow>
       modify_effect (run_Vector ops) (run_Vector (ops @ [Modify i nv])) i nv
     \<and> modify_effect (run_Efficient ops) (run_Efficient (ops @ [Modify i nv])) i nv
     \<and> modify_effect (run_Branchless ops) (run_Branchless (ops @ [Modify i nv])) i nv
     \<and> modify_effect (run_Linear ops) (run_Linear (ops @ [Modify i nv])) i nv
     \<and> modify_effect_Map (run_Map ops) (run_Map (ops @ [Modify i nv])) i nv)
 \<and> (mOrders (run_Vector [Add 2 Ask 150 30, Modify 2 0]) 2 = None \<and> mAskLevels (run_Vector [Add 2 Ask 150 30, Modify 2 0]) = [] \<and> OrderBookVector_GetBestPrices (run_Vector [Add 2 Ask 150 30, Modify 2 0]) = (0, 0)
   \<and> mOrders (run_Efficient [Add 2 Ask 150 30, Modify 2 0]) 2 = None \<and> mAskLevels (run_Efficient [Add 2 Ask 150 30, Modify 2 0]) = [] \<and> OrderBookVectorEfficient_GetBestPrices (run_Efficient [Add 2 Ask 150 30, Modify 2 0]) = (0, 0)
   \<and> mOrders (run_Branchless [Add 2 Ask 150 30, Modify 2 0]) 2 = None \<and> mAskLevels (run_Branchless [Add 2 Ask 150 30, Modify 2 0]) = [] \<and> OrderBookVectorBranchless_GetBestPrices (run_Branchless [Add 2 Ask 150 30, Modify 2 0]) = (0, 0)
   \<and> mOrders (run_Linear [Add 2 Ask 150 30, Modify 2 0]) 2 = None \<and> mAskLevels (run_Linear [Add 2 Ask 150 30, Modify 2 0]) = [] \<and> OrderBookVectorLinear_GetBestPrices (run_Linear [Add 2 Ask 150 30, Modify 2 0]) = (0, 0)
   \<and> map_option (\<lambda>m. (mOrdersMap m 2, mAskLevelsMap m, OrderBookMap_GetBestPrices m)) (run_Map [Add 2 Ask 150 30, Modify 2 0]) = Some (None, [], (0, 0))
   \<and> mAskLevels (run_Vector [Add 1 Bid 100 50, Add 2 Ask 150 30, Modify 2 0]) = [] \<and> OrderBookVector_GetBestPrices (run_Vector [Add 1 Bid 100 50, Add 2 Ask 150 30, Modify 2 0]) = (0, 0)
   \<and> mAskLevels (run_Efficient [Add 1 Bid 100 50, Add 2 Ask 150 30, Modify 2 0]) = [] \<and> OrderBookVectorEfficient_GetBestPrices (run_Efficient [Add 1 Bid 100 50, Add 2 Ask 150 30, Modify 2 0]) = (0, 0)
   \<and> mAskLevels (run_Branchless [Add 1 Bid 100 50, Add 2 Ask 150 30, Modify 2 0]) = [] \<and> OrderBookVectorBranchless_GetBestPrices (run_Branchless [Add 1 Bid 100 50, Add 2 Ask 150 30, Modify 2 0]) = (0, 0)
   \<and> mAskLevels (run_Linear [Add 1 Bid 100 50, Add 2 Ask 150 30, Modify 2 0]) = [] \<and> OrderBookVectorLinear_GetBestPrices (run_Linear [Add 1 Bid 100 50, Add 2 Ask 150 30, Modify 2 0]) = (0, 0)
   \<and> map_option (\<lambda>m. (mAskLevelsMap m, OrderBookMap_GetBestPrices m)) (run_Map [Add 1 Bid 100 50, Add 2 Ask 150 30, Modify 2 0]) = Some ([], (0, 0)))"
proof (intro conjI impI)
  assume s: "small_volumes (ops @ [Modify i nv])"
  show "modify_effect (run_Vector ops) (run_Vector (ops @ [Modify i nv])) i nv"
    by (rule modify_effect_run[of "(>)" "(<)" run_Vector, OF _ _ run_Vector_facts s]) simp_all
  show "modify_effect (run_Efficient ops) (run_Efficient (ops @ [Modify i nv])) i nv"
    by (rule modify_effect_run[of "(<)" "(>)" run_Efficient, OF _ _ run_Efficient_facts s]) simp_all
  show "modify_effect (run_Branchless ops) (run_Branchless (ops @ [Modify i nv])) i nv"
    by (rule modify_effect_run[of "(<)" "(>)" run_Branchless, OF _ _ run_Branchless_facts s]) simp_all
  show "modify_effect (run_Linear ops) (run_Linear (ops @ [Modify i nv])) i nv"
    by (rule modify_effect_run[of "(<)" "(>)" run_Linear, OF _ _ run_Linear_facts s]) simp_all
  show "modify_effect_Map (run_Map ops) (run_Map (ops @ [Modify i nv])) i nv"
    by (rule modify_effect_Map_run[OF s])
qed (simp_all add: book_defs)

theorem C6_effect_of_modify_witness:
  "small_volumes ([Add 1 Bid 100 50, Add 2 Bid 100 30] @ [Modify 1 20])
 \<and> mOrders (run_Vector [Add 1 Bid 100 50, Add 2 Bid 100 30]) 1 = Some \<lparr>oside = Bid, oprice = 100, originalVolume = 50\<rparr>
 \<and> level_at (levels_of (run_Vector [Add 1 Bid 100 50, Add 2 Bid 100 30]) Bid) 100 = Some 80
 \<and> mBidLevels (run_Vector ([Add 1 Bid 100 50, Add 2 Bid 100 30] @ [Modify 1 20])) = [\<lparr>price = 100, volume = 50\<rparr>]
 \<and> mOrders (run_Vector ([Add 1 Bid 100 50, Add 2 Bid 100 30] @ [Modify 1 20])) 1 = Some \<lparr>oside = Bid, oprice = 100, originalVolume = 20\<rparr>
 \<and> mOrders (run_Vector ([Add 1 Bid 100 50, Add 2 Bid 100 30] @ [Modify 1 20])) 2 = Some \<lparr>oside = Bid, oprice = 100, originalVolume = 30\<rparr>
 \<and> mBidLevels (run_Efficient ([Add 1 Bid 100 50, Add 2 Bid 100 30] @ [Modify 1 20])) = [\<lparr>price = 100, volume = 50\<rparr>]
 \<and> mOrders (run_Efficient ([Add 1 Bid 100 50, Add 2 Bid 100 30] @ [Modify 1 20])) 1 = Some \<lparr>oside = Bid, oprice = 100, originalVolume = 20\<rparr>
 \<and> mOrders (run_Efficient ([Add 1 Bid 100 50, Add 2 Bid 100 30] @ [Modify 1 20])) 2 = Some \<lparr>oside = Bid, oprice = 100, originalVolume = 30\<rparr>
 \<and> mBidLevels (run_Branchless ([Add 1 Bid 100 50, Add 2 Bid 100 30] @ [Modify 1 20])) = [\<lparr>price = 100, volume = 50\<rparr>]
 \<and> mOrders (run_Branchless ([Add 1 Bid 100 50, Add 2 Bid 100 30] @ [Modify 1 20])) 1 = Some \<lparr>oside = Bid, oprice = 100, originalVolume = 20\<rparr>
 \<and> mOrders (run_Branchless ([Add 1 Bid 100 50, Add 2 Bid 100 30] @ [Modify 1 20])) 2 = Some \<lparr>oside = Bid, oprice = 100, originalVolume = 30\<rparr>
 \<and> mBidLevels (run_Linear ([Add 1 Bid 100 50, Add 2 Bid 100 30] @ [Modify 1 20])) = [\<lparr>price = 100, volume = 50\<rparr>]
 \<and> mOrders (run_Linear ([Add 1 Bid 100 50, Add 2 Bid 100 30] @ [Modify 1 20])) 1 = Some \<lparr>oside = Bid, oprice = 100, originalVolume = 20\<rparr>
 \<and> mOrders (run_Linear ([Add 1 Bid 100 50, Add 2 Bid 100 30] @ [Modify 1 20])) 2 = Some \<lparr>oside = Bid, oprice = 100, originalVolume = 30\<rparr>
 \<and> map_option (\<lambda>m. (map first (mBidLevelsMap m), map second (mBidLevelsMap m), map_option originalVolume (mOrdersMap m 1))) (run_Map ([Add 1 Bid 100 50, Add 2 Bid 100 30] @ [Modify 1 20])) = Some ([100], [50], Some 20)
 \<and> small_volumes ([Add 1 Bid 100 50, Add 2 Bid 100 30] @ [Modify 1 (- 40)])
 \<and> mBidLevels (run_Vector ([Add 1 Bid 100 50, Add 2 Bid 100 30] @ [Modify 1 (- 40)])) = []
 \<and> mOrders (run_Vector ([Add 1 Bid 100 50, Add 2 Bid 100 30] @ [Modify 1 (- 40)])) 1 = None
 \<and> mBidLevels (run_Efficient ([Add 1 Bid 100 50, Add 2 Bid 100 30] @ [Modify 1 (- 40)])) = []
 \<and> mOrders (run_Efficient ([Add 1 Bid 100 50, Add 2 Bid 100 30] @ [Modify 1 (- 40)])) 1 = None
 \<and> mBidLevels (run_Branchless ([Add 1 Bid 100 50, Add 2 Bid 100 30] @ [Modify 1 (- 40)])) = []
 \<and> mOrders (run_Branchless ([Add 1 Bid 100 50, Add 2 Bid 100 30] @ [Modify 1 (- 40)])) 1 = None
 \<and> mBidLevels (run_Linear ([Add 1 Bid 100 50, Add 2 Bid 100 30] @ [Modify 1 (- 40)])) = []
 \<and> mOrders (run_Linear ([Add 1 Bid 100 50, Add 2 Bid 100 30] @ [Modify 1 (- 40)])) 1 = None
 \<and> map_option (\<lambda>m. (mBidLevelsMap m, mOrdersMap m 1)) (run_Map ([Add 1 Bid 100 50, Add 2 Bid 100 30] @ [Modify 1 (- 40)])) = Some ([], None)"
  using C6_effect_of_modify_on_order_and_level [of "[Add 1 Bid 100 50, Add 2 Bid 100 30]" 1 20]
    C6_effect_of_modify_on_order_and_level [of "[Add 1 Bid 100 50, Add 2 Bid 100 30]" 1 "- 40"]
  by (simp add: book_defs level_at_def)

section \<open>Agreement of the five classes\<close>

text \<open>
  C1. The four array-backed classes return the same pair of best prices after every
  sequence of calls, and so does the tree book after every sequence that ends in a
  book (\<open>best_prices_agree\<close>). The tree book does not survive every sequence: an order
  can stay registered while its level is erased, and the next \<^verbatim>\<open>ModifyOrder\<close> or
  \<^verbatim>\<open>DeleteOrder\<close> of that order goes through the stored iterator of the erased node
  (lines 94 and 101, 119 and 124). In the sequence below \<^verbatim>\<open>ModifyOrder(1, 0)\<close> leaves
  order 1 registered with volume 0 and \<^verbatim>\<open>ModifyOrder(2, 0)\<close> erases the level at 100
  together with order 2; after it all five classes return (90, 150), and order 1 of
  the tree book holds the iterator to node 2, which is no longer in the map.
  \<^verbatim>\<open>DeleteOrder(1)\<close> then has no defined result in the tree book, while the
  array-backed classes find no level with the price of order 1, erase the order and
  still return (90, 150).
\<close>

theorem C1_tree_book_diverges_after_level_erased:
  "OrderBookVector_GetBestPrices (run_Vector [Add 9 Ask 150 10, Add 8 Bid 90 5, Add 1 Bid 100 50, Add 2 Bid 100 30, Modify 1 0, Modify 2 0]) = (90, 150)
 \<and> OrderBookVectorEfficient_GetBestPrices (run_Efficient [Add 9 Ask 150 10, Add 8 Bid 90 5, Add 1 Bid 100 50, Add 2 Bid 100 30, Modify 1 0, Modify 2 0]) = (90, 150)
 \<and> OrderBookVectorBranchless_GetBestPrices (run_Branchless [Add 9 Ask 150 10, Add 8 Bid 90 5, Add 1 Bid 100 50, Add 2 Bid 100 30, Modify 1 0, Modify 2 0]) = (90, 150)
 \<and> OrderBookVectorLinear_GetBestPrices (run_Linear [Add 9 Ask 150 10, Add 8 Bid 90 5, Add 1 Bid 100 50, Add 2 Bid 100 30, Modify 1 0, Modify 2 0]) = (90, 150)
 \<and> map_option OrderBookMap_GetBestPrices (run_Map [Add 9 Ask 150 10, Add 8 Bid 90 5, Add 1 Bid 100 50, Add 2 Bid 100 30, Modify 1 0, Modify 2 0]) = Some (90, 150)
 \<and> map_option (\<lambda>m. (map_option bidIt (mOrdersMap m 1), map node (mBidLevelsMap m))) (run_Map [Add 9 Ask 150 10, Add 8 Bid 90 5, Add 1 Bid 100 50, Add 2 Bid 100 30, Modify 1 0, Modify 2 0]) = Some (Some (Some 2), [1])
 \<and> OrderBookVector_GetBestPrices (run_Vector [Add 9 Ask 150 10, Add 8 Bid 90 5, Add 1 Bid 100 50, Add 2 Bid 100 30, Modify 1 0, Modify 2 0, Delete 1]) = (90, 150)
 \<and> OrderBookVectorEfficient_GetBestPrices (run_Efficient [Add 9 Ask 150 10, Add 8 Bid 90 5, Add 1 Bid 100 50, Add 2 Bid 100 30, Modify 1 0, Modify 2 0, Delete 1]) = (90, 150)
 \<and> OrderBookVectorBranchless_GetBestPrices (run_Branchless [Add 9 Ask 150 10, Add 8 Bid 90 5, Add 1 Bid 100 50, Add 2 Bid 100 30, Modify 1 0, Modify 2 0, Delete 1]) = (90, 150)
 \<and> OrderBookVectorLinear_GetBestPrices (run_Linear [Add 9 Ask 150 10, Add 8 Bid 90 5, Add 1 Bid 100 50, Add 2 Bid 100 30, Modify 1 0, Modify 2 0, Delete 1]) = (90, 150)
 \<and> run_Map [Add 9 Ask 150 10, Add 8 Bid 90 5, Add 1 Bid 100 50, Add 2 Bid 100 30, Modify 1 0, Modify 2 0, Delete 1] = None"
  by (simp add: book_defs)


end
